theory Spec2Isabelle
  imports Main "HOL-Library.Word" "HOL-Library.Sublist"
begin

section \<open>JavaScript strings\<close>

text \<open>
  A JavaScript string is a sequence of UTF-16 code units.  Neither regular expression of
  \<^verbatim>\<open>scripts/update-readme.js\<close> carries the \<^verbatim>\<open>u\<close> flag, so matching, \<^verbatim>\<open>indexOf\<close>,
  \<^verbatim>\<open>includes\<close>, \<^verbatim>\<open>slice\<close> and \<^verbatim>\<open>trim\<close> all work on code units.  The content of a file read
  with the encoding \<^verbatim>\<open>"utf-8"\<close> is taken as the decoded string.
\<close>

type_synonym jschar = "16 word"
type_synonym jsstr = "jschar list"

text \<open>An ASCII literal of the source, as code units.\<close>

definition js :: "string \<Rightarrow> jsstr" where
  "js s = map of_char s"

text \<open>The decorative glyph U+2749 of the link format: one code unit.\<close>

definition glyph :: jschar where
  "glyph = 0x2749"

text \<open>
  The class \<^verbatim>\<open>\s\<close> of a regular expression, which is also the set of code units that
  \<^verbatim>\<open>String.prototype.trim\<close> strips: WhiteSpace and LineTerminator of ECMAScript.
\<close>

definition isSpace :: "jschar \<Rightarrow> bool" where
  "isSpace c \<longleftrightarrow>
     c = 0x09 \<or> c = 0x0A \<or> c = 0x0B \<or> c = 0x0C \<or> c = 0x0D \<or> c = 0x20 \<or> c = 0xA0 \<or>
     c = 0x1680 \<or> (0x2000 \<le> c \<and> c \<le> 0x200A) \<or> c = 0x2028 \<or> c = 0x2029 \<or>
     c = 0x202F \<or> c = 0x205F \<or> c = 0x3000 \<or> c = 0xFEFF"

definition trim :: "jsstr \<Rightarrow> jsstr" where
  "trim s = rev (dropWhile isSpace (rev (dropWhile isSpace s)))"

text \<open>\<^verbatim>\<open>s.includes(sub)\<close>: \<^verbatim>\<open>sub\<close> occurs in \<^verbatim>\<open>s\<close> as a contiguous run.\<close>

fun includes_str :: "jsstr \<Rightarrow> jsstr \<Rightarrow> bool" where
  "includes_str [] sub = (sub = [])"
| "includes_str (c # s) sub = (prefix sub (c # s) \<or> includes_str s sub)"

text \<open>\<^verbatim>\<open>s.indexOf(sub)\<close>: the first index where \<^verbatim>\<open>sub\<close> occurs, or \<^verbatim>\<open>-1\<close>.\<close>

fun search :: "jsstr \<Rightarrow> jsstr \<Rightarrow> nat option" where
  "search [] sub = (if sub = [] then Some 0 else None)"
| "search (c # s) sub = (if prefix sub (c # s) then Some 0 else map_option Suc (search s sub))"

definition indexOf :: "jsstr \<Rightarrow> jsstr \<Rightarrow> int" where
  "indexOf s sub = (case search s sub of None \<Rightarrow> - 1 | Some i \<Rightarrow> int i)"

text \<open>
  \<^verbatim>\<open>s.slice(0, e)\<close>: a negative end counts from the end of the string, and an end beyond
  the length is the length.
\<close>

definition slice0 :: "jsstr \<Rightarrow> int \<Rightarrow> jsstr" where
  "slice0 s e = (if e < 0 then take (nat (int (length s) + e)) s else take (nat e) s)"

text \<open>\<^verbatim>\<open>xs.join(sep)\<close>.\<close>

fun join :: "jsstr \<Rightarrow> jsstr list \<Rightarrow> jsstr" where
  "join sep [] = []"
| "join sep [x] = x"
| "join sep (x # y # ys) = x @ sep @ join sep (y # ys)"

section \<open>Regular expressions\<close>

text \<open>
  Both regular expressions of the script are a sequence of items of five kinds: literal
  code units, a greedy \<^verbatim>\<open>C+\<close> of a character class, the same inside a capture group, a
  captured lazy \<^verbatim>\<open>C*?\<close>, and the lookahead \<^verbatim>\<open>(?=lit|$)\<close>.  The matcher is the backtracking
  one of ECMAScript: a greedy item takes the longest run first and gives code units back
  one at a time (never fewer than one), a lazy item takes none first and one more on each
  failure of what follows.  It returns the captures of the first successful alternative,
  in the order of their groups, and the rest of the input after the match.
\<close>

datatype rx_item =
    Lit jsstr
  | Plus "jschar \<Rightarrow> bool"
  | Group_Plus "jschar \<Rightarrow> bool"
  | Group_Lazy_Star "jschar \<Rightarrow> bool"
  | Lookahead_Or_End jsstr

text \<open>\<^term>\<open>greedy k n\<close> tries the counts \<open>n\<close>, \<open>n - 1\<close>, ..., \<open>1\<close>.\<close>

fun greedy :: "(nat \<Rightarrow> 'a option) \<Rightarrow> nat \<Rightarrow> 'a option" where
  "greedy k 0 = None"
| "greedy k (Suc n) = (case k (Suc n) of Some r \<Rightarrow> Some r | None \<Rightarrow> greedy k n)"

text \<open>\<^term>\<open>lazy k n m\<close> tries the counts \<open>n\<close>, \<open>n + 1\<close>, ..., \<open>n + m\<close>.\<close>

fun lazy :: "(nat \<Rightarrow> 'a option) \<Rightarrow> nat \<Rightarrow> nat \<Rightarrow> 'a option" where
  "lazy k n 0 = k n"
| "lazy k n (Suc m) = (case k n of Some r \<Rightarrow> Some r | None \<Rightarrow> lazy k (Suc n) m)"

definition capture :: "jsstr \<Rightarrow> (jsstr list \<times> jsstr) option \<Rightarrow> (jsstr list \<times> jsstr) option" where
  "capture g r = map_option (\<lambda>(caps, rest). (g # caps, rest)) r"

fun match_rx :: "rx_item list \<Rightarrow> jsstr \<Rightarrow> (jsstr list \<times> jsstr) option" where
  "match_rx [] s = Some ([], s)"
| "match_rx (Lit l # r) s =
     (if prefix l s then match_rx r (drop (length l) s) else None)"
| "match_rx (Plus c # r) s =
     greedy (\<lambda>n. match_rx r (drop n s)) (length (takeWhile c s))"
| "match_rx (Group_Plus c # r) s =
     greedy (\<lambda>n. capture (take n s) (match_rx r (drop n s))) (length (takeWhile c s))"
| "match_rx (Group_Lazy_Star c # r) s =
     lazy (\<lambda>n. capture (take n s) (match_rx r (drop n s))) 0 (length (takeWhile c s))"
| "match_rx (Lookahead_Or_End l # r) s =
     (if prefix l s \<or> s = [] then match_rx r s else None)"

text \<open>
  \<^verbatim>\<open>/<a\s+href="\.\/([^"]+)\/"\s+style="font-weight:\s+bold;\s+margin-bottom:200px;">\<close>
  \<^verbatim>\<open>GLYPH\s+([^<]+)<\/a><\/br>/g\<close>, where \<^verbatim>\<open>GLYPH\<close> stands for the code unit U+2749.
\<close>

definition existingLinksRegex :: "rx_item list" where
  \<open>existingLinksRegex =
    [Lit (js ''<a''), Plus isSpace, Lit (js ''href="./''), Group_Plus (\<lambda>c. c \<noteq> 0x22),
     Lit (js ''/"''), Plus isSpace, Lit (js ''style="font-weight:''), Plus isSpace,
     Lit (js ''bold;''), Plus isSpace, Lit (js ''margin-bottom:200px;">'' @ [glyph]),
     Plus isSpace, Group_Plus (\<lambda>c. c \<noteq> 0x3C), Lit (js ''</a></br>'')]\<close>

text \<open>\<^verbatim>\<open>/###\s+([^#]+)\n---\n([\s\S]*?)(?=\n###|$)/g\<close>\<close>

definition existingSectionsRegex :: "rx_item list" where
  "existingSectionsRegex =
    [Lit (js ''###''), Plus isSpace, Group_Plus (\<lambda>c. c \<noteq> 0x23),
     Lit (js ''\<newline>---\<newline>''), Group_Lazy_Star (\<lambda>c. True),
     Lookahead_Or_End (js ''\<newline>###'')]"

text \<open>
  One call of \<^verbatim>\<open>regex.exec(s)\<close> at the start of \<open>s\<close>, for a regular expression with two
  groups: the two captures and the input after the match.
\<close>

definition exec2 :: "rx_item list \<Rightarrow> jsstr \<Rightarrow> (jsstr \<times> jsstr \<times> jsstr) option" where
  "exec2 rx s =
     (case match_rx rx s of
        Some ([g1, g2], rest) \<Rightarrow> Some (g1, g2, rest)
      | _ \<Rightarrow> None)"

section \<open>The fragments the script renders\<close>

text \<open>
  The link of lines 24 and 42:
  \<^verbatim>\<open><a href="./${folderName}/" style="font-weight: bold; margin-bottom:200px;">GLYPH ${folderTitle}</a></br>\<close>
\<close>

definition link :: "jsstr \<Rightarrow> jsstr \<Rightarrow> jsstr" where
  \<open>link folderName folderTitle =
     js ''<a href="./'' @ folderName @
     js ''/" style="font-weight: bold; margin-bottom:200px;">'' @ [glyph] @ js '' '' @
     folderTitle @ js ''</a></br>''\<close>

text \<open>The section of line 32, built from the trimmed captures of a match.\<close>

definition section_of :: "jsstr \<Rightarrow> jsstr \<Rightarrow> jsstr" where
  "section_of sectionTitle sectionContent =
     js ''### '' @ sectionTitle @ js ''\<newline>---\<newline>'' @ sectionContent"

text \<open>
  The template literal of lines 55 to 59: it opens with a line break, and after the content
  come a line break and the twenty spaces that indent the closing backquote.
\<close>

definition readmeSection :: "jsstr \<Rightarrow> jsstr \<Rightarrow> jsstr" where
  "readmeSection dirName readmeContent =
     js ''\<newline>### '' @ dirName @ js ''\<newline>---\<newline>'' @ readmeContent @
     js ''\<newline>'' @ replicate 20 0x20"

section \<open>The two extraction loops\<close>

text \<open>
  \<^verbatim>\<open>while ((match = regex.exec(readmeContent)) !== null)\<close> with the \<^verbatim>\<open>g\<close> flag: a search
  starts where the last match ended, tries every start position from there to the end of
  the input, and the loop stops at the first search that finds nothing.  Neither regular
  expression looks behind its start, so a search from a position is a search in the
  suffix of the input there.
\<close>

function existingLinks :: "jsstr \<Rightarrow> jsstr list" where
  "existingLinks s =
     (case exec2 existingLinksRegex s of
        Some (folderName, folderTitle, rest) \<Rightarrow> link folderName folderTitle # existingLinks rest
      | None \<Rightarrow> (case s of [] \<Rightarrow> [] | c # s' \<Rightarrow> existingLinks s'))"
  by pat_completeness auto
termination
proof (relation "measure length")
  show "wf (measure length)"
    by simp
next
  fix s :: jsstr and c s'
  assume "s = c # s'"
  then show "(s', s) \<in> measure length"
    by simp
next
  fix s :: jsstr and x folderName y folderTitle rest
  assume m: "exec2 existingLinksRegex s = Some x" and x: "(folderName, y) = x"
    and y: "(folderTitle, rest) = y"
  have g: "\<exists>j. 0 < j \<and> k j = Some v" if "greedy k n = Some v"
    for k :: "nat \<Rightarrow> (jsstr list \<times> jsstr) option" and n v
    using that by (induction n) (auto split: option.splits)
  have l: "\<exists>j. k j = Some v" if "lazy k i n = Some v"
    for k :: "nat \<Rightarrow> (jsstr list \<times> jsstr) option" and i n v
    using that by (induction n arbitrary: i) (auto split: option.splits)
  have le: "length t' \<le> length t" if "match_rx r t = Some (caps, t')" for r t caps t'
    using that
  proof (induction r t arbitrary: caps t' rule: match_rx.induct)
    case (3 c r s)
    then obtain j where "match_rx r (drop j s) = Some (caps, t')"
      by (auto dest: g)
    with 3 show ?case
      by fastforce
  next
    case (4 c r s)
    then obtain j where "capture (take j s) (match_rx r (drop j s)) = Some (caps, t')"
      by (auto dest: g)
    with 4 show ?case
      by (fastforce simp: capture_def)
  next
    case (5 c r s)
    then obtain j where "capture (take j s) (match_rx r (drop j s)) = Some (caps, t')"
      by (auto dest: l)
    with 5 show ?case
      by (fastforce simp: capture_def)
  qed (fastforce split: if_splits)+
  have lt: "length t' < length t" if "match_rx (Lit (a # l) # r) t = Some (caps, t')"
    for a l r t caps t'
  proof -
    from that have "prefix (a # l) t"
      and "match_rx r (drop (length (a # l)) t) = Some (caps, t')"
      by (auto split: if_splits)
    then show ?thesis
      using le [of r "drop (length (a # l)) t" caps t'] by (auto simp: prefix_def)
  qed
  from m x y obtain caps where "match_rx existingLinksRegex s = Some (caps, rest)"
    by (auto simp: exec2_def split: option.splits list.splits)
  then have "length rest < length s"
    unfolding existingLinksRegex_def js_def list.map by (rule lt)
  then show "(rest, s) \<in> measure length"
    by simp
qed

function existingSections :: "jsstr \<Rightarrow> jsstr list" where
  "existingSections s =
     (case exec2 existingSectionsRegex s of
        Some (title, content, rest) \<Rightarrow>
          section_of (trim title) (trim content) # existingSections rest
      | None \<Rightarrow> (case s of [] \<Rightarrow> [] | c # s' \<Rightarrow> existingSections s'))"
  by pat_completeness auto
termination
proof (relation "measure length")
  show "wf (measure length)"
    by simp
next
  fix s :: jsstr and c s'
  assume "s = c # s'"
  then show "(s', s) \<in> measure length"
    by simp
next
  fix s :: jsstr and x title y content rest
  assume m: "exec2 existingSectionsRegex s = Some x" and x: "(title, y) = x"
    and y: "(content, rest) = y"
  have g: "\<exists>j. 0 < j \<and> k j = Some v" if "greedy k n = Some v"
    for k :: "nat \<Rightarrow> (jsstr list \<times> jsstr) option" and n v
    using that by (induction n) (auto split: option.splits)
  have l: "\<exists>j. k j = Some v" if "lazy k i n = Some v"
    for k :: "nat \<Rightarrow> (jsstr list \<times> jsstr) option" and i n v
    using that by (induction n arbitrary: i) (auto split: option.splits)
  have le: "length t' \<le> length t" if "match_rx r t = Some (caps, t')" for r t caps t'
    using that
  proof (induction r t arbitrary: caps t' rule: match_rx.induct)
    case (3 c r s)
    then obtain j where "match_rx r (drop j s) = Some (caps, t')"
      by (auto dest: g)
    with 3 show ?case
      by fastforce
  next
    case (4 c r s)
    then obtain j where "capture (take j s) (match_rx r (drop j s)) = Some (caps, t')"
      by (auto dest: g)
    with 4 show ?case
      by (fastforce simp: capture_def)
  next
    case (5 c r s)
    then obtain j where "capture (take j s) (match_rx r (drop j s)) = Some (caps, t')"
      by (auto dest: l)
    with 5 show ?case
      by (fastforce simp: capture_def)
  qed (fastforce split: if_splits)+
  have lt: "length t' < length t" if "match_rx (Lit (a # l) # r) t = Some (caps, t')"
    for a l r t caps t'
  proof -
    from that have "prefix (a # l) t"
      and "match_rx r (drop (length (a # l)) t) = Some (caps, t')"
      by (auto split: if_splits)
    then show ?thesis
      using le [of r "drop (length (a # l)) t" caps t'] by (auto simp: prefix_def)
  qed
  from m x y obtain caps where "match_rx existingSectionsRegex s = Some (caps, rest)"
    by (auto simp: exec2_def split: option.splits list.splits)
  then have "length rest < length s"
    unfolding existingSectionsRegex_def js_def list.map by (rule lt)
  then show "(rest, s) \<in> measure length"
    by simp
qed

declare existingLinks.simps [simp del] existingSections.simps [simp del]

section \<open>Paths and the file system\<close>

text \<open>
  A path is the list of its segments.  \<^verbatim>\<open>path.join(p, name)\<close> adds a segment;
  \<^verbatim>\<open>path.relative(from, to)\<close> drops the segments the two paths share, climbs out of what
  is left of \<open>from\<close> and descends into what is left of \<open>to\<close>, and joins the result with
  the separator.
\<close>

type_synonym path = "jsstr list"

definition path_join :: "path \<Rightarrow> jsstr \<Rightarrow> path" where
  "path_join p name = p @ [name]"

fun relative_segments :: "path \<Rightarrow> path \<Rightarrow> path" where
  "relative_segments (a # from) (b # to) =
     (if a = b then relative_segments from to
      else map (\<lambda>_. js ''..'') (a # from) @ (b # to))"
| "relative_segments from to = map (\<lambda>_. js ''..'') from @ to"

definition path_relative :: "path \<Rightarrow> path \<Rightarrow> jsstr" where
  "path_relative from to = join (js ''/'') (relative_segments from to)"

text \<open>
  What \<^verbatim>\<open>readdirSync(dir, { withFileTypes: true })\<close> lists: the name of an entry and
  whether it is a directory.
\<close>

datatype dirent = Dirent (name: jsstr) (isDirectory: bool)

text \<open>
  A file system maps a path to a file with its content, to a directory with its entries
  in the order the system enumerates them, or to nothing.
\<close>

datatype node = File jsstr | Directory "dirent list"

type_synonym filesystem = "path \<Rightarrow> node option"

text \<open>
  What the script can throw: its own error of line 15, and the errors of the file system
  calls, which it does not catch.
\<close>

datatype error = PlaceholderNotFound | ENOENT | EISDIR | ENOTDIR

definition readFileSync :: "filesystem \<Rightarrow> path \<Rightarrow> error + jsstr" where
  "readFileSync fs p =
     (case fs p of
        None \<Rightarrow> Inl ENOENT
      | Some (Directory _) \<Rightarrow> Inl EISDIR
      | Some (File content) \<Rightarrow> Inr content)"

definition readdirSync :: "filesystem \<Rightarrow> path \<Rightarrow> error + dirent list" where
  "readdirSync fs p =
     (case fs p of
        None \<Rightarrow> Inl ENOENT
      | Some (File _) \<Rightarrow> Inl ENOTDIR
      | Some (Directory dirents) \<Rightarrow> Inr dirents)"

definition existsSync :: "filesystem \<Rightarrow> path \<Rightarrow> bool" where
  "existsSync fs p \<longleftrightarrow> fs p \<noteq> None"

definition writeFileSync :: "filesystem \<Rightarrow> path \<Rightarrow> jsstr \<Rightarrow> error + filesystem" where
  "writeFileSync fs p content =
     (case fs p of
        Some (Directory _) \<Rightarrow> Inl EISDIR
      | _ \<Rightarrow> Inr (fs(p \<mapsto> File content)))"

section \<open>updateReadme\<close>

definition placeholder :: jsstr where
  "placeholder = js ''<!-- FOLDER LINKS -->''"

text \<open>
  The body of the \<^verbatim>\<open>forEach\<close> of lines 35 to 64 for one entry, on the two lists collected
  so far.  An entry that is not a directory changes nothing.
\<close>

definition visit ::
  "filesystem \<Rightarrow> path \<Rightarrow> dirent \<Rightarrow> jsstr list \<times> jsstr list \<Rightarrow> error + jsstr list \<times> jsstr list"
where
  "visit fs projectDir dirent acc =
     (case acc of (folderLinks, readmeSections) \<Rightarrow>
      if isDirectory dirent then
        let dirName = name dirent;
            folderPath = path_join projectDir dirName;
            relativePath = path_relative projectDir folderPath;
            folderLinks' =
              (if \<not> list_ex (\<lambda>link. includes_str link (js ''./'' @ dirName @ js ''/'')) folderLinks
               then folderLinks @ [link relativePath dirName]
               else folderLinks);
            folderReadmePath = path_join folderPath (js ''README.md'')
        in if existsSync fs folderReadmePath then
             (case readFileSync fs folderReadmePath of
                Inl e \<Rightarrow> Inl e
              | Inr raw \<Rightarrow>
                  let readmeContent = trim raw
                  in if \<not> list_ex (\<lambda>section. includes_str section
                            (js ''### '' @ dirName @ js ''\<newline>---\<newline>'' @ readmeContent))
                          readmeSections
                     then Inr (folderLinks', readmeSections @ [readmeSection dirName readmeContent])
                     else Inr (folderLinks', readmeSections))
           else Inr (folderLinks', readmeSections)
      else Inr acc)"

text \<open>\<^verbatim>\<open>dirents.forEach(...)\<close>: in order, and an exception ends it.\<close>

fun forEach ::
  "('a \<Rightarrow> 'b \<Rightarrow> error + 'b) \<Rightarrow> 'a list \<Rightarrow> 'b \<Rightarrow> error + 'b"
where
  "forEach f [] acc = Inr acc"
| "forEach f (x # xs) acc = (case f x acc of Inl e \<Rightarrow> Inl e | Inr acc' \<Rightarrow> forEach f xs acc')"

text \<open>Lines 11 and 12.\<close>

definition insertPosition :: "jsstr \<Rightarrow> int" where
  "insertPosition readmeContent = indexOf readmeContent placeholder + int (length placeholder)"

text \<open>Lines 66 to 73.\<close>

definition updatedContent :: "jsstr \<Rightarrow> jsstr list \<Rightarrow> jsstr list \<Rightarrow> jsstr" where
  "updatedContent readmeContent folderLinks readmeSections =
     slice0 readmeContent (insertPosition readmeContent) @ js ''\<newline>'' @
     join (js ''\<newline>'') folderLinks @ js ''\<newline>'' @
     join (js ''\<newline>'') readmeSections"

text \<open>
  The two lists at line 65: what the two loops extracted from the text, then what the
  walk over the entries of the project directory appended.
\<close>

definition collect ::
  "filesystem \<Rightarrow> path \<Rightarrow> jsstr \<Rightarrow> error + jsstr list \<times> jsstr list"
where
  "collect fs projectDir readmeContent =
     (case readdirSync fs projectDir of
        Inl e \<Rightarrow> Inl e
      | Inr dirents \<Rightarrow>
          forEach (visit fs projectDir) dirents
            (existingLinks readmeContent, existingSections readmeContent))"

text \<open>
  The function of lines 4 to 76.  It returns the error it throws, or the file system after
  the write of line 75.
\<close>

definition updateReadme :: "path \<Rightarrow> path \<Rightarrow> filesystem \<Rightarrow> error + filesystem" where
  "updateReadme projectDir readmePath fs =
     (case readFileSync fs readmePath of
        Inl e \<Rightarrow> Inl e
      | Inr readmeContent \<Rightarrow>
          if insertPosition readmeContent = - 1 then Inl PlaceholderNotFound
          else
            (case collect fs projectDir readmeContent of
               Inl e \<Rightarrow> Inl e
             | Inr (folderLinks, readmeSections) \<Rightarrow>
                 writeFileSync fs readmePath
                   (updatedContent readmeContent folderLinks readmeSections)))"

section \<open>The script's own call\<close>

text \<open>
  Lines 78 to 80: the script runs \<^verbatim>\<open>updateReadme\<close> on the project directory and on the
  \<^verbatim>\<open>README.md\<close> directly inside it.
\<close>

definition readmeFilePath :: "path \<Rightarrow> path" where
  "readmeFilePath projectDirectory = path_join projectDirectory (js ''README.md'')"

definition run :: "path \<Rightarrow> filesystem \<Rightarrow> error + filesystem" where
  "run projectDirectory fs = updateReadme projectDirectory (readmeFilePath projectDirectory) fs"

section \<open>Observations and example trees\<close>

text \<open>The content of the file at \<open>readmePath\<close> after a run that returned.\<close>

definition written :: "path \<Rightarrow> error + filesystem \<Rightarrow> jsstr option" where
  "written readmePath result =
     (case result of
        Inl e \<Rightarrow> None
      | Inr fs \<Rightarrow> (case fs readmePath of Some (File content) \<Rightarrow> Some content | _ \<Rightarrow> None))"

text \<open>
  A project directory \<^verbatim>\<open>repo\<close> with a \<^verbatim>\<open>README.md\<close> of a given text and with the given
  subdirectories, each with or without a \<^verbatim>\<open>README.md\<close> of its own.
\<close>

definition repo :: path where
  "repo = [js ''repo'']"

definition tree :: "jsstr \<Rightarrow> (jsstr \<times> jsstr option) list \<Rightarrow> filesystem" where
  "tree readme subdirs =
     (map_of (concat (map (\<lambda>(d, c).
        (case c of
           None \<Rightarrow> [(repo @ [d], Directory [])]
         | Some content \<Rightarrow>
             [(repo @ [d], Directory [Dirent (js ''README.md'') False]),
              (repo @ [d, js ''README.md''], File content)])) subdirs)))
     (repo \<mapsto> Directory (Dirent (js ''README.md'') False # map (\<lambda>(d, c). Dirent d True) subdirs),
      repo @ [js ''README.md''] \<mapsto> File readme)"

section \<open>Anchors of the tolerant shape\<close>

text \<open>
  The text that the link pattern accepts: the fixed parts of the link format, with a run of
  white space wherever the pattern has \<^verbatim>\<open>\s+\<close>.  The link the script renders is the anchor
  with a single space in each of these places.
\<close>

definition anchor :: "jsstr \<Rightarrow> jsstr \<Rightarrow> jsstr \<Rightarrow> jsstr \<Rightarrow> jsstr \<Rightarrow> jsstr \<Rightarrow> jsstr \<Rightarrow> jsstr" where
  \<open>anchor w1 folderName w2 w3 w4 w5 folderTitle =
     js ''<a'' @ w1 @ js ''href="./'' @ folderName @ js ''/"'' @ w2 @
     js ''style="font-weight:'' @ w3 @ js ''bold;'' @ w4 @
     js ''margin-bottom:200px;">'' @ [glyph] @ w5 @ folderTitle @ js ''</a></br>''\<close>

text \<open>A non-empty run of white space.\<close>

definition blank :: "jsstr \<Rightarrow> bool" where
  "blank w \<longleftrightarrow> w \<noteq> [] \<and> list_all isSpace w"

text \<open>What the group \<^verbatim>\<open>([^"]+)\<close> followed by \<^verbatim>\<open>/"\<close> can capture.\<close>

definition good_name :: "jsstr \<Rightarrow> bool" where
  "good_name n \<longleftrightarrow> n \<noteq> [] \<and> 0x22 \<notin> set n"

text \<open>
  What the group \<^verbatim>\<open>([^<]+)\<close> after \<^verbatim>\<open>\s+\<close> can capture: the greedy \<^verbatim>\<open>\s+\<close> leaves the title a
  leading white space only when the title is that one code unit.
\<close>

definition good_title :: "jsstr \<Rightarrow> bool" where
  "good_title t \<longleftrightarrow> t \<noteq> [] \<and> 0x3C \<notin> set t \<and> (length t = 1 \<or> \<not> isSpace (hd t))"

text \<open>A link rendered from an anchor that occurs in the text \<open>s\<close>.\<close>

definition rendered_from :: "jsstr \<Rightarrow> jsstr \<Rightarrow> bool" where
  "rendered_from s l \<longleftrightarrow>
     (\<exists>n t w1 w2 w3 w4 w5.
        l = link n t \<and> good_name n \<and> good_title t \<and>
        blank w1 \<and> blank w2 \<and> blank w3 \<and> blank w4 \<and> blank w5 \<and>
        includes_str s (anchor w1 n w2 w3 w4 w5 t))"


section \<open>Blocks of the section shape\<close>

text \<open>
  A block of the README as the section pattern reads it: the heading mark \<^verbatim>\<open>###\<close>, a run of
  white space, the heading, white space after the heading, the separator line \<^verbatim>\<open>---\<close>, and
  the body with white space before and after it.  \<^term>\<open>Block w h hw bw b bw'\<close> holds these six
  parts in this order; the separator line is the same in every block.
\<close>

datatype block = Block jsstr jsstr jsstr jsstr jsstr jsstr

fun block_text :: "block \<Rightarrow> jsstr" where
  "block_text (Block w h hw bw b bw') =
     js ''###'' @ w @ h @ hw @ js ''\<newline>---\<newline>'' @ bw @ b @ bw'"

text \<open>
  What line 32 renders for the block: the mark, one space, the heading without the white
  space after it, the separator line, and the body without the white space around it.
\<close>

fun block_section :: "block \<Rightarrow> jsstr" where
  "block_section (Block w h hw bw b bw') = js ''### '' @ h @ js ''\<newline>---\<newline>'' @ b"

text \<open>
  The parts of a block are what their names say: \<open>w\<close> is a non-empty run of white space, \<open>hw\<close>,
  \<open>bw\<close> and \<open>bw'\<close> are runs of white space, the heading is not empty, holds no \<^verbatim>\<open>#\<close> and neither
  starts nor ends with white space, and the body neither starts nor ends with white space.
  Moreover no line of the body starts with \<^verbatim>\<open>###\<close>, and no line of the body before its first
  \<^verbatim>\<open>#\<close> is a separator line.
\<close>

fun block_ok :: "block \<Rightarrow> bool" where
  "block_ok (Block w h hw bw b bw') \<longleftrightarrow>
     blank w \<and> list_all isSpace hw \<and> list_all isSpace bw \<and> list_all isSpace bw' \<and>
     h \<noteq> [] \<and> 0x23 \<notin> set h \<and> \<not> isSpace (hd h) \<and> \<not> isSpace (last h) \<and>
     (b = [] \<or> \<not> isSpace (hd b) \<and> \<not> isSpace (last b)) \<and>
     \<not> includes_str (js ''\<newline>'' @ b) (js ''\<newline>###'') \<and>
     \<not> includes_str (js ''\<newline>'' @ takeWhile (\<lambda>c. c \<noteq> 0x23) b @ js ''\<newline>'')
         (js ''\<newline>---\<newline>'')"

text \<open>Blocks one after the other, each starting on a new line.\<close>

fun blocks_text :: "block list \<Rightarrow> jsstr" where
  "blocks_text [] = []"
| "blocks_text [B] = block_text B"
| "blocks_text (B # C # Bs) = block_text B @ js ''\<newline>'' @ blocks_text (C # Bs)"

section \<open>Strings: search and containment\<close>

lemma includes_str_sublist: "includes_str s sub \<longleftrightarrow> sublist sub s"
  by (induction s) (auto simp: sublist_Cons_right)

lemma search_None_iff: "search s sub = None \<longleftrightarrow> \<not> includes_str s sub"
  by (induction s) auto

lemma search_Some_prefix:
  "search s sub = Some i \<Longrightarrow> i \<le> length s \<and> prefix sub (drop i s)"
  by (induction s arbitrary: i) (auto split: if_splits)

lemma search_Some_first:
  "search s sub = Some i \<Longrightarrow> j < i \<Longrightarrow> \<not> prefix sub (drop j s)"
proof (induction s arbitrary: i j)
  case Nil
  then show ?case by (simp split: if_splits)
next
  case (Cons c s)
  show ?case
  proof (cases j)
    case 0
    with Cons.prems show ?thesis by (auto split: if_splits)
  next
    case (Suc j')
    with Cons show ?thesis by (auto split: if_splits)
  qed
qed

lemma placeholder_length: "length placeholder = 21"
  by (simp add: placeholder_def js_def)

lemma insertPosition_absent: "\<not> includes_str t placeholder \<Longrightarrow> insertPosition t = 20"
  by (simp add: insertPosition_def indexOf_def placeholder_length search_None_iff [symmetric])

lemma insertPosition_ge: "20 \<le> insertPosition t"
  by (simp add: insertPosition_def indexOf_def placeholder_length split: option.splits)

lemma updateReadme_write:
  assumes "readFileSync fs readmePath = Inr t" and "collect fs projectDir t = Inr (ls, ss)"
  shows "updateReadme projectDir readmePath fs = Inr (fs(readmePath \<mapsto> File (updatedContent t ls ss)))"
proof -
  from assms(1) obtain "fs readmePath = Some (File t)"
    by (auto simp: readFileSync_def split: option.splits node.splits)
  moreover have "insertPosition t \<noteq> - 1"
    using insertPosition_ge [of t] by simp
  ultimately show ?thesis
    using assms by (simp add: updateReadme_def writeFileSync_def)
qed

lemma search_Some_split:
  assumes "search s sub = Some i"
  shows "s = take i s @ sub @ drop (i + length sub) s"
proof -
  from assms have "prefix sub (drop i s)" by (simp add: search_Some_prefix)
  then obtain r where "drop i s = sub @ r" by (auto simp: prefix_def)
  moreover from this have "drop (i + length sub) s = r"
    by (metis add.commute append_eq_conv_conj drop_drop)
  ultimately show ?thesis by (metis append_take_drop_id)
qed

lemma search_Some_not_before:
  assumes "search s sub = Some i" and "sub \<noteq> []"
  shows "\<not> includes_str (take i s @ butlast sub) sub"
proof
  define p r where "p = take i s" and "r = drop (i + length sub) s"
  assume "includes_str (take i s @ butlast sub) sub"
  then obtain ps ss where eq: "p @ butlast sub = ps @ sub @ ss"
    by (auto simp: includes_str_sublist sublist_def p_def)
  from assms have i: "i \<le> length s"
    by (simp add: search_Some_prefix)
  then have "length p = i"
    by (simp add: p_def)
  moreover from eq have "length (p @ butlast sub) = length (ps @ sub @ ss)"
    by simp
  ultimately have "i + (length sub - 1) = length ps + length sub + length ss"
    by (simp only: length_append length_butlast)
  moreover have "0 < length sub"
    using assms(2) by simp
  ultimately have lt: "length ps < i"
    by arith
  have "s = p @ sub @ r"
    unfolding p_def r_def by (rule search_Some_split [OF assms(1)])
  also have "sub = butlast sub @ [last sub]"
    using assms(2) by simp
  finally have "s = (p @ butlast sub) @ [last sub] @ r"
    by simp
  then have "s = ps @ sub @ (ss @ [last sub] @ r)"
    unfolding eq by simp
  then have "drop (length ps) s = sub @ (ss @ [last sub] @ r)"
    by (metis append_eq_conv_conj)
  then have "prefix sub (drop (length ps) s)"
    by simp
  with search_Some_first [OF assms(1) lt] show False
    by simp
qed

section \<open>Errors of the file system calls\<close>

lemma readFileSync_errors: "readFileSync fs p \<noteq> Inl PlaceholderNotFound"
  by (simp add: readFileSync_def split: option.splits node.splits)

lemma visit_errors: "visit fs projectDir dirent acc \<noteq> Inl PlaceholderNotFound"
  using readFileSync_errors [of fs "path_join (path_join projectDir (name dirent)) (js ''README.md'')"]
  by (cases acc) (auto simp: visit_def Let_def split: sum.splits)

lemma forEach_visit_errors:
  "forEach (visit fs projectDir) dirents acc \<noteq> Inl PlaceholderNotFound"
  by (induction dirents arbitrary: acc) (auto simp: visit_errors split: sum.splits)

lemma collect_errors: "collect fs projectDir t \<noteq> Inl PlaceholderNotFound"
  by (simp add: collect_def readdirSync_def forEach_visit_errors split: option.splits node.splits)

lemma writeFileSync_errors: "writeFileSync fs p content \<noteq> Inl PlaceholderNotFound"
  by (simp add: writeFileSync_def split: option.splits node.splits)

lemmas eval_defs =
  js_def glyph_def isSpace_def trim_def indexOf_def slice0_def capture_def exec2_def
  existingLinksRegex_def existingSectionsRegex_def link_def section_of_def readmeSection_def
  path_join_def path_relative_def readFileSync_def readdirSync_def existsSync_def
  writeFileSync_def placeholder_def visit_def insertPosition_def updatedContent_def
  collect_def updateReadme_def readmeFilePath_def run_def written_def repo_def tree_def
  existingLinks.simps existingSections.simps

section \<open>The placeholder check\<close>

text \<open>
  Claim C3.  For every README text the insert position of lines 11 and 12 is not negative:
  it is at least 20, and exactly 20 when the text does not contain the placeholder, since
  \<^verbatim>\<open>indexOf\<close> then returns \<^verbatim>\<open>-1\<close> and the length of the placeholder is 21.  So the test
  of line 14 never holds, \<^verbatim>\<open>updateReadme\<close> never throws the error of line 15, and whenever
  the reads of the run succeed the write of line 75 takes place.
\<close>

theorem insertPosition_never_minus_one:
  "0 \<le> insertPosition readmeContent
   \<and> (\<not> includes_str readmeContent placeholder \<longrightarrow> insertPosition readmeContent = 20)
   \<and> updateReadme projectDir readmePath fs \<noteq> Inl PlaceholderNotFound
   \<and> (readFileSync fs readmePath = Inr readmeContent
        \<and> collect fs projectDir readmeContent = Inr (folderLinks, readmeSections) \<longrightarrow>
      updateReadme projectDir readmePath fs =
        Inr (fs(readmePath \<mapsto> File (updatedContent readmeContent folderLinks readmeSections))))"
proof -
  have "insertPosition t \<noteq> - 1" for t
    using insertPosition_ge [of t] by simp
  then have "updateReadme projectDir readmePath fs \<noteq> Inl PlaceholderNotFound"
    using readFileSync_errors [of fs readmePath]
    using collect_errors [of fs projectDir]
    by (auto simp: updateReadme_def writeFileSync_errors split: sum.splits prod.splits)
  moreover have "0 \<le> insertPosition readmeContent"
    using insertPosition_ge [of readmeContent] by simp
  ultimately show ?thesis
    by (simp add: insertPosition_absent updateReadme_write)
qed

theorem insertPosition_never_minus_one_witness:
  "\<not> includes_str (js ''abc'') placeholder
   \<and> insertPosition (js ''abc'') = 20
   \<and> updateReadme repo (readmeFilePath repo) (tree (js ''abc'') []) =
       Inr ((tree (js ''abc'') [])(readmeFilePath repo \<mapsto> File (js ''abc\<newline>\<newline>'')))"
  using insertPosition_never_minus_one
    [of "js ''abc''" repo "readmeFilePath repo" "tree (js ''abc'') []" "[]" "[]"]
  by (simp add: eval_defs)

text \<open>
  Claim C1.  The claim asks for an error, and for an untouched file, when the README does
  not contain the placeholder.  The script does neither: on a README of the 26 lower-case
  letters, in a project without subdirectories, it overwrites the file with the first 20
  code units of the text and two line breaks.
\<close>

theorem missing_placeholder_is_written:
  "\<not> includes_str (js ''abcdefghijklmnopqrstuvwxyz'') placeholder
   \<and> updateReadme repo (readmeFilePath repo) (tree (js ''abcdefghijklmnopqrstuvwxyz'') []) =
       Inr ((tree (js ''abcdefghijklmnopqrstuvwxyz'') [])
         (readmeFilePath repo \<mapsto> File (js ''abcdefghijklmnopqrst\<newline>\<newline>'')))"
  by (simp add: eval_defs)

section \<open>The recomposed text\<close>

lemma relative_segments_child: "relative_segments p (p @ [d]) = [d]"
  by (induction p) auto

lemma path_relative_child: "path_relative projectDir (path_join projectDir dirName) = dirName"
  by (simp add: path_relative_def path_join_def relative_segments_child)

lemma slice0_insertPosition:
  assumes "search t placeholder = Some i"
  shows "slice0 t (insertPosition t) = take i t @ placeholder"
proof -
  have "t = take i t @ placeholder @ drop (i + length placeholder) t"
    by (rule search_Some_split [OF assms])
  moreover from assms have "i \<le> length t"
    by (simp add: search_Some_prefix)
  then have "length (take i t) = i"
    by simp
  ultimately have "take (i + 21) t = take i t @ placeholder"
    by (metis append_eq_conv_conj append.assoc length_append placeholder_length)
  then show ?thesis
    using assms by (simp add: slice0_def insertPosition_def indexOf_def placeholder_length nat_add_distrib)
qed

lemma updatedContent_split:
  assumes "includes_str t placeholder"
  shows "\<exists>before after. t = before @ placeholder @ after
      \<and> \<not> includes_str (before @ butlast placeholder) placeholder
      \<and> (\<forall>ls ss. updatedContent t ls ss =
            before @ placeholder @ js ''\<newline>'' @ join (js ''\<newline>'') ls @ js ''\<newline>'' @
            join (js ''\<newline>'') ss)"
proof -
  from assms obtain i where i: "search t placeholder = Some i"
    using search_None_iff [of t placeholder] by auto
  have ne: "placeholder \<noteq> []"
    using placeholder_length by auto
  have "t = take i t @ placeholder @ drop (i + length placeholder) t"
    by (rule search_Some_split [OF i])
  moreover have "\<not> includes_str (take i t @ butlast placeholder) placeholder"
    by (rule search_Some_not_before [OF i ne])
  moreover have "updatedContent t ls ss =
      take i t @ placeholder @ js ''\<newline>'' @ join (js ''\<newline>'') ls @ js ''\<newline>'' @
      join (js ''\<newline>'') ss" for ls ss
    by (simp add: updatedContent_def slice0_insertPosition [OF i])
  ultimately show ?thesis
    by blast
qed

section \<open>The links appended for subdirectories\<close>

lemma visit_links:
  assumes "visit fs projectDir dirent (ls, ss) = Inr (ls', ss')"
  shows "ls' = ls \<or> isDirectory dirent \<and> ls' = ls @ [link (name dirent) (name dirent)]"
  using assms
  by (auto simp: visit_def Let_def path_relative_child split: if_splits sum.splits)

lemma forEach_visit_links:
  assumes "forEach (visit fs projectDir) dirents (ls, ss) = Inr (ls', ss')"
  shows "\<exists>dirNames. set dirNames \<subseteq> name ` {d \<in> set dirents. isDirectory d}
      \<and> ls' = ls @ map (\<lambda>dirName. link dirName dirName) dirNames"
  using assms
proof (induction dirents arbitrary: ls ss)
  case Nil
  then show ?case by simp
next
  case (Cons d dirents)
  from Cons.prems obtain ls1 ss1 where v: "visit fs projectDir d (ls, ss) = Inr (ls1, ss1)"
    and r: "forEach (visit fs projectDir) dirents (ls1, ss1) = Inr (ls', ss')"
    by (auto split: sum.splits)
  from Cons.IH [OF r] obtain ns where ns: "set ns \<subseteq> name ` {d \<in> set dirents. isDirectory d}"
    and eq: "ls' = ls1 @ map (\<lambda>dirName. link dirName dirName) ns"
    by blast
  from visit_links [OF v] show ?case
  proof
    assume "ls1 = ls"
    with ns eq show ?thesis
      by (intro exI [of _ ns]) auto
  next
    assume "isDirectory d \<and> ls1 = ls @ [link (name d) (name d)]"
    with ns eq show ?thesis
      by (intro exI [of _ "name d # ns"]) auto
  qed
qed

text \<open>
  Claim C8.  The collected links are the links extracted from the text followed by the
  links appended by the walk, and every appended link is, for the name \<open>dirName\<close> of an
  entry of the project directory that is a directory, exactly
  \<^verbatim>\<open><a href="./dirName/" style="font-weight: bold; margin-bottom:200px;">GLYPH dirName</a></br>\<close>
  with the glyph U+2749: the name stands in the \<^verbatim>\<open>href\<close> and in the display text.
\<close>

theorem appended_link_format:
  assumes "collect fs projectDir readmeContent = Inr (folderLinks, readmeSections)"
  shows \<open>\<exists>dirents dirNames. readdirSync fs projectDir = Inr dirents
      \<and> set dirNames \<subseteq> name ` {d \<in> set dirents. isDirectory d}
      \<and> folderLinks = existingLinks readmeContent @
          map (\<lambda>dirName. js ''<a href="./'' @ dirName @
                 js ''/" style="font-weight: bold; margin-bottom:200px;">'' @ [0x2749] @ js '' '' @
                 dirName @ js ''</a></br>'') dirNames\<close>
proof -
  from assms obtain dirents where d: "readdirSync fs projectDir = Inr dirents"
    and f: "forEach (visit fs projectDir) dirents
        (existingLinks readmeContent, existingSections readmeContent) = Inr (folderLinks, readmeSections)"
    by (auto simp: collect_def split: sum.splits)
  from forEach_visit_links [OF f] d show ?thesis
    by (auto simp: link_def glyph_def)
qed

theorem appended_link_format_witness:
  \<open>collect (tree placeholder [(js ''notes'', None)]) repo placeholder =
     Inr ([js ''<a href="./notes/" style="font-weight: bold; margin-bottom:200px;">'' @ [0x2749] @
           js '' notes</a></br>''], [])
   \<and> (\<exists>dirents dirNames. readdirSync (tree placeholder [(js ''notes'', None)]) repo = Inr dirents
      \<and> set dirNames \<subseteq> name ` {d \<in> set dirents. isDirectory d}
      \<and> [js ''<a href="./notes/" style="font-weight: bold; margin-bottom:200px;">'' @ [0x2749] @
           js '' notes</a></br>''] = existingLinks placeholder @
          map (\<lambda>dirName. js ''<a href="./'' @ dirName @
                 js ''/" style="font-weight: bold; margin-bottom:200px;">'' @ [0x2749] @ js '' '' @
                 dirName @ js ''</a></br>'') dirNames)\<close>
proof -
  have 1: \<open>collect (tree placeholder [(js ''notes'', None)]) repo placeholder =
     Inr ([js ''<a href="./notes/" style="font-weight: bold; margin-bottom:200px;">'' @ [0x2749] @
           js '' notes</a></br>''], [])\<close>
    by (simp add: eval_defs)
  from appended_link_format [OF 1] 1 show ?thesis
    by blast
qed

section \<open>A project without subdirectories\<close>

lemma visit_not_directory: "\<not> isDirectory dirent \<Longrightarrow> visit fs projectDir dirent acc = Inr acc"
  by (cases acc) (simp add: visit_def)

lemma forEach_visit_no_directory:
  "list_all (\<lambda>d. \<not> isDirectory d) dirents \<Longrightarrow> forEach (visit fs projectDir) dirents acc = Inr acc"
  by (induction dirents) (simp_all add: visit_not_directory)

text \<open>
  Claim C6, as stated, fails: on a README that is just the placeholder, in a project
  without subdirectories, the script writes the placeholder and two line breaks, not one.
\<close>

theorem zero_subdirectories_counterexample:
  "includes_str placeholder placeholder
   \<and> readdirSync (tree placeholder []) repo = Inr [Dirent (js ''README.md'') False]
   \<and> written (readmeFilePath repo) (run repo (tree placeholder [])) =
       Some (placeholder @ js ''\<newline>\<newline>'')
   \<and> written (readmeFilePath repo) (run repo (tree placeholder [])) \<noteq>
       Some (placeholder @ js ''\<newline>'')"
  by (simp add: eval_defs)

text \<open>
  Claim C6, amended.  On a README that contains the placeholder, in a project directory
  none of whose entries is a directory, nothing new is appended: the text written is the
  input up to and including the first placeholder, a line break, the links extracted from
  the input joined by line breaks, a line break, and the sections extracted from the input
  joined by line breaks.  When the input has no link and no section, that is the input up
  to and including the placeholder followed by two line breaks.
\<close>

theorem zero_subdirectories:
  assumes "readFileSync fs readmePath = Inr readmeContent"
    and "includes_str readmeContent placeholder"
    and "readdirSync fs projectDir = Inr dirents"
    and "list_all (\<lambda>d. \<not> isDirectory d) dirents"
  shows "\<exists>before after. readmeContent = before @ placeholder @ after
      \<and> \<not> includes_str (before @ butlast placeholder) placeholder
      \<and> updateReadme projectDir readmePath fs =
          Inr (fs(readmePath \<mapsto> File
            (before @ placeholder @ js ''\<newline>'' @
             join (js ''\<newline>'') (existingLinks readmeContent) @ js ''\<newline>'' @
             join (js ''\<newline>'') (existingSections readmeContent))))
      \<and> (existingLinks readmeContent = [] \<and> existingSections readmeContent = [] \<longrightarrow>
          updateReadme projectDir readmePath fs =
            Inr (fs(readmePath \<mapsto> File (before @ placeholder @ js ''\<newline>\<newline>''))))"
proof -
  have c: "collect fs projectDir readmeContent =
      Inr (existingLinks readmeContent, existingSections readmeContent)"
    using assms(3,4) by (simp add: collect_def forEach_visit_no_directory)
  from updatedContent_split [OF assms(2)] obtain before after
    where "readmeContent = before @ placeholder @ after"
      and "\<not> includes_str (before @ butlast placeholder) placeholder"
      and "\<And>ls ss. updatedContent readmeContent ls ss =
            before @ placeholder @ js ''\<newline>'' @ join (js ''\<newline>'') ls @ js ''\<newline>'' @
            join (js ''\<newline>'') ss"
    by blast
  with updateReadme_write [OF assms(1) c] show ?thesis
    by (intro exI [of _ before] exI [of _ after]) (simp add: js_def)
qed

theorem zero_subdirectories_witness:
  "includes_str (placeholder @ js ''\<newline>'' @ link (js ''x'') (js ''y'') @ js ''\<newline>bye'') placeholder
   \<and> list_all (\<lambda>d. \<not> isDirectory d) [Dirent (js ''README.md'') False]
   \<and> existingLinks (placeholder @ js ''\<newline>'' @ link (js ''x'') (js ''y'') @ js ''\<newline>bye'') =
       [link (js ''x'') (js ''y'')]
   \<and> existingSections (placeholder @ js ''\<newline>'' @ link (js ''x'') (js ''y'') @ js ''\<newline>bye'') = []
   \<and> (\<exists>before after.
        placeholder @ js ''\<newline>'' @ link (js ''x'') (js ''y'') @ js ''\<newline>bye'' =
          before @ placeholder @ after
      \<and> \<not> includes_str (before @ butlast placeholder) placeholder
      \<and> updateReadme repo (readmeFilePath repo)
          (tree (placeholder @ js ''\<newline>'' @ link (js ''x'') (js ''y'') @ js ''\<newline>bye'') []) =
          Inr ((tree (placeholder @ js ''\<newline>'' @ link (js ''x'') (js ''y'') @ js ''\<newline>bye'') [])
            (readmeFilePath repo \<mapsto> File
              (before @ placeholder @ js ''\<newline>'' @
               join (js ''\<newline>'') [link (js ''x'') (js ''y'')] @ js ''\<newline>'' @
               join (js ''\<newline>'') []))))"
proof -
  let ?t = "placeholder @ js ''\<newline>'' @ link (js ''x'') (js ''y'') @ js ''\<newline>bye''"
  have 1: "readFileSync (tree ?t []) (readmeFilePath repo) = Inr ?t"
    by (simp add: readFileSync_def tree_def readmeFilePath_def path_join_def repo_def)
  have 2: "includes_str ?t placeholder"
    by (simp add: eval_defs)
  have 3: "readdirSync (tree ?t []) repo = Inr [Dirent (js ''README.md'') False]"
    by (simp add: readdirSync_def tree_def repo_def js_def)
  have 4: "list_all (\<lambda>d. \<not> isDirectory d) [Dirent (js ''README.md'') False]"
    by simp
  have 5: "existingLinks ?t = [link (js ''x'') (js ''y'')]"
    by (simp add: eval_defs)
  have 6: "existingSections ?t = []"
    by (simp add: eval_defs)
  from zero_subdirectories [OF 1 2 3 4] 2 4 5 6 show ?thesis
    by (simp only:) blast
qed

section \<open>The backtracking matcher\<close>

lemma greedy_eq:
  assumes "0 < j" and "j \<le> n" and "k j = Some r" and "\<And>i. j < i \<Longrightarrow> i \<le> n \<Longrightarrow> k i = None"
  shows "greedy k n = Some r"
  using assms
proof (induction n)
  case 0
  then show ?case by simp
next
  case (Suc n)
  show ?case
  proof (cases "j = Suc n")
    case True
    with Suc.prems show ?thesis by simp
  next
    case False
    with Suc.prems have "k (Suc n) = None" and "j \<le> n" by auto
    with Suc show ?thesis by simp
  qed
qed

lemma greedy_SomeD:
  assumes "greedy k n = Some r"
  shows "\<exists>j. 0 < j \<and> j \<le> n \<and> k j = Some r \<and> (\<forall>i. j < i \<and> i \<le> n \<longrightarrow> k i = None)"
  using assms
proof (induction n)
  case 0
  then show ?case by simp
next
  case (Suc n)
  show ?case
  proof (cases "k (Suc n)")
    case None
    with Suc obtain j where "0 < j" "j \<le> n" "k j = Some r" "\<forall>i. j < i \<and> i \<le> n \<longrightarrow> k i = None"
      by auto
    with None show ?thesis
      by (intro exI [of _ j]) (auto simp: le_Suc_eq)
  next
    case (Some v)
    with Suc.prems show ?thesis
      by (intro exI [of _ "Suc n"]) auto
  qed
qed

lemma lazy_eq:
  assumes "n \<le> j" and "j \<le> n + m" and "k j = Some r" and "\<And>i. n \<le> i \<Longrightarrow> i < j \<Longrightarrow> k i = None"
  shows "lazy k n m = Some r"
  using assms
proof (induction m arbitrary: n)
  case 0
  then show ?case by simp
next
  case (Suc m)
  show ?case
  proof (cases "j = n")
    case True
    with Suc.prems show ?thesis by simp
  next
    case False
    with Suc.prems have "k n = None" and "Suc n \<le> j" and "j \<le> Suc n + m" by auto
    moreover have "lazy k (Suc n) m = Some r"
      using Suc.prems \<open>Suc n \<le> j\<close> \<open>j \<le> Suc n + m\<close> by (intro Suc.IH) auto
    ultimately show ?thesis by simp
  qed
qed

lemma lazy_SomeD:
  assumes "lazy k n m = Some r"
  shows "\<exists>j. n \<le> j \<and> j \<le> n + m \<and> k j = Some r \<and> (\<forall>i. n \<le> i \<and> i < j \<longrightarrow> k i = None)"
  using assms
proof (induction m arbitrary: n)
  case 0
  then show ?case by auto
next
  case (Suc m)
  show ?case
  proof (cases "k n")
    case None
    with Suc.prems have "lazy k (Suc n) m = Some r" by simp
    from Suc.IH [OF this] obtain j where "Suc n \<le> j" "j \<le> Suc n + m" "k j = Some r"
      "\<forall>i. Suc n \<le> i \<and> i < j \<longrightarrow> k i = None"
      by auto
    moreover have "k i = None" if "n \<le> i" "i < j" for i
      using that None \<open>\<forall>i. Suc n \<le> i \<and> i < j \<longrightarrow> k i = None\<close> by (cases "i = n") auto
    ultimately show ?thesis
      by (intro exI [of _ j]) auto
  next
    case (Some v)
    with Suc.prems show ?thesis
      by (intro exI [of _ n]) auto
  qed
qed

lemma takeWhile_run:
  assumes "\<forall>c\<in>set w. P c" and "s = [] \<or> \<not> P (hd s)"
  shows "takeWhile P (w @ s) = w"
  using assms by (cases s) (auto simp: takeWhile_append)

lemma match_Lit_append: "match_rx (Lit l # r) (l @ s) = match_rx r s"
  by simp

lemma match_Plus_run:
  assumes "w \<noteq> []" and "\<forall>c\<in>set w. P c" and "s = [] \<or> \<not> P (hd s)"
  shows "match_rx r s = Some v \<Longrightarrow> match_rx (Plus P # r) (w @ s) = Some v"
  using assms(1) by (simp add: takeWhile_run [OF assms(2,3)] greedy_eq [of "length w"])

lemma match_Group_Plus_run:
  assumes "g \<noteq> []" and "\<forall>c\<in>set g. P c" and "s = [] \<or> \<not> P (hd s)"
  shows "match_rx r s = Some (caps, rest) \<Longrightarrow>
    match_rx (Group_Plus P # r) (g @ s) = Some (g # caps, rest)"
  using assms(1)
  by (simp add: takeWhile_run [OF assms(2,3)] greedy_eq [of "length g"] capture_def)

lemma match_Group_Plus_backoff:
  assumes "g \<noteq> []" and "\<forall>c\<in>set g. P c" and "P a" and "s = [] \<or> \<not> P (hd s)"
    and "match_rx r s = None" and "match_rx r (a # s) = Some (caps, rest)"
  shows "match_rx (Group_Plus P # r) (g @ a # s) = Some (g # caps, rest)"
proof -
  have "takeWhile P ((g @ [a]) @ s) = g @ [a]"
    using assms(2,3,4) by (intro takeWhile_run) auto
  then have n: "length (takeWhile P (g @ a # s)) = Suc (length g)"
    by simp
  show ?thesis
    unfolding match_rx.simps n
    using assms(1,5,6) by (intro greedy_eq [of "length g"]) (auto simp: capture_def le_Suc_eq)
qed

section \<open>Matches of the link pattern\<close>


lemma match_link_tail:
  assumes "blank w5" and "t \<noteq> []" and "0x3C \<notin> set t" and "\<not> isSpace (hd t)"
  shows "match_rx [Plus isSpace, Group_Plus (\<lambda>c. c \<noteq> 0x3C), Lit (js ''</a></br>'')]
           (w5 @ t @ js ''</a></br>'' @ rest) = Some ([t], rest)"
proof -
  have "match_rx [Lit (js ''</a></br>'')] (js ''</a></br>'' @ rest) = Some ([], rest)"
    by simp
  then have "match_rx [Group_Plus (\<lambda>c. c \<noteq> 0x3C), Lit (js ''</a></br>'')]
      (t @ js ''</a></br>'' @ rest) = Some ([t], rest)"
    using assms(2,3) by (intro match_Group_Plus_run) (auto simp: js_def)
  then show ?thesis
    using assms(1,2,4) by (intro match_Plus_run) (auto simp: blank_def list_all_iff)
qed


lemma match_link_head:
  assumes "blank w1" "blank w2" "blank w3" "blank w4" and "good_name n"
    and "match_rx [Plus isSpace, Group_Plus (\<lambda>c. c \<noteq> 0x3C), Lit (js ''</a></br>'')] s =
      Some ([t], rest)"
  shows \<open>match_rx existingLinksRegex
     (js ''<a'' @ w1 @ js ''href="./'' @ n @ js ''/"'' @ w2 @ js ''style="font-weight:'' @ w3 @
      js ''bold;'' @ w4 @ js ''margin-bottom:200px;">'' @ [glyph] @ s) = Some ([n, t], rest)\<close>
proof -
  let ?tail = "[Plus isSpace, Group_Plus (\<lambda>c. c \<noteq> 0x3C), Lit (js ''</a></br>'')]"
  let ?r11 = \<open>Lit (js ''margin-bottom:200px;">'' @ [glyph]) # ?tail\<close>
  let ?r9 = "Lit (js ''bold;'') # Plus isSpace # ?r11"
  let ?r7 = \<open>Lit (js ''style="font-weight:'') # Plus isSpace # ?r9\<close>
  let ?r5 = \<open>Lit (js ''/"'') # Plus isSpace # ?r7\<close>
  have "match_rx ?r11 ((js ''margin-bottom:200px;\">'' @ [glyph]) @ s) = Some ([t], rest)"
    unfolding match_Lit_append by (rule assms(6))
  then have "match_rx (Plus isSpace # ?r11) (w4 @ (js ''margin-bottom:200px;\">'' @ [glyph]) @ s) =
      Some ([t], rest)"
    using assms(4) by (intro match_Plus_run) (auto simp: blank_def list_all_iff js_def isSpace_def)
  then have "match_rx ?r9 (js ''bold;'' @ w4 @ (js ''margin-bottom:200px;\">'' @ [glyph]) @ s) =
      Some ([t], rest)"
    unfolding match_Lit_append .
  then have "match_rx (Plus isSpace # ?r9)
      (w3 @ js ''bold;'' @ w4 @ (js ''margin-bottom:200px;\">'' @ [glyph]) @ s) = Some ([t], rest)"
    using assms(3) by (intro match_Plus_run) (auto simp: blank_def list_all_iff js_def isSpace_def)
  then have "match_rx ?r7 (js ''style=\"font-weight:'' @ w3 @ js ''bold;'' @ w4 @
      (js ''margin-bottom:200px;\">'' @ [glyph]) @ s) = Some ([t], rest)"
    unfolding match_Lit_append .
  then have "match_rx (Plus isSpace # ?r7) (w2 @ js ''style=\"font-weight:'' @ w3 @ js ''bold;'' @ w4 @
      (js ''margin-bottom:200px;\">'' @ [glyph]) @ s) = Some ([t], rest)"
    using assms(2) by (intro match_Plus_run) (auto simp: blank_def list_all_iff js_def isSpace_def)
  then have 5: "match_rx ?r5 (0x2F # 0x22 # w2 @ js ''style=\"font-weight:'' @ w3 @ js ''bold;'' @ w4 @
      (js ''margin-bottom:200px;\">'' @ [glyph]) @ s) = Some ([t], rest)"
    by (simp add: js_def)
  have "match_rx ?r5 (0x22 # w2 @ js ''style=\"font-weight:'' @ w3 @ js ''bold;'' @ w4 @
      (js ''margin-bottom:200px;\">'' @ [glyph]) @ s) = None"
    by (simp add: js_def)
  with 5 have "match_rx (Group_Plus (\<lambda>c. c \<noteq> 0x22) # ?r5)
      (n @ 0x2F # 0x22 # w2 @ js ''style=\"font-weight:'' @ w3 @ js ''bold;'' @ w4 @
      (js ''margin-bottom:200px;\">'' @ [glyph]) @ s) = Some ([n, t], rest)"
    using assms(5) by (intro match_Group_Plus_backoff) (auto simp: good_name_def)
  then have "match_rx (Lit (js ''href=\"./'') # Group_Plus (\<lambda>c. c \<noteq> 0x22) # ?r5)
      (js ''href=\"./'' @ n @ 0x2F # 0x22 # w2 @ js ''style=\"font-weight:'' @ w3 @ js ''bold;'' @ w4 @
      (js ''margin-bottom:200px;\">'' @ [glyph]) @ s) = Some ([n, t], rest)"
    unfolding match_Lit_append .
  then have "match_rx (Plus isSpace # Lit (js ''href=\"./'') # Group_Plus (\<lambda>c. c \<noteq> 0x22) # ?r5)
      (w1 @ js ''href=\"./'' @ n @ 0x2F # 0x22 # w2 @ js ''style=\"font-weight:'' @ w3 @ js ''bold;'' @ w4 @
      (js ''margin-bottom:200px;\">'' @ [glyph]) @ s) = Some ([n, t], rest)"
    using assms(1) by (intro match_Plus_run) (auto simp: blank_def list_all_iff js_def isSpace_def)
  then have "match_rx existingLinksRegex
      (js ''<a'' @ w1 @ js ''href=\"./'' @ n @ 0x2F # 0x22 # w2 @ js ''style=\"font-weight:'' @ w3 @ js ''bold;'' @ w4 @
      (js ''margin-bottom:200px;\">'' @ [glyph]) @ s) = Some ([n, t], rest)"
    unfolding existingLinksRegex_def match_Lit_append .
  then show ?thesis
    by (simp add: js_def)
qed

lemma exec_anchor:
  assumes "blank w1" "blank w2" "blank w3" "blank w4" "blank w5" and "good_name n"
    and "t \<noteq> []" and "0x3C \<notin> set t" and "\<not> isSpace (hd t)"
  shows "exec2 existingLinksRegex (anchor w1 n w2 w3 w4 w5 t @ rest) = Some (n, t, rest)"
  using match_link_head [OF assms(1-4,6) match_link_tail [OF assms(5,7-9)], of rest]
  by (simp add: exec2_def anchor_def)


lemma existingLinks_match:
  "exec2 existingLinksRegex s = Some (n, t, rest) \<Longrightarrow> existingLinks s = link n t # existingLinks rest"
  by (subst existingLinks.simps) simp

lemma existingLinks_skip:
  "exec2 existingLinksRegex (c # s) = None \<Longrightarrow> existingLinks (c # s) = existingLinks s"
  by (subst existingLinks.simps) simp

lemma existingLinks_Nil: "existingLinks [] = []"
  by (subst existingLinks.simps) (simp add: exec2_def existingLinksRegex_def js_def)

lemma exec_link_no_anchor: "\<not> prefix (js ''<a'') s \<Longrightarrow> exec2 existingLinksRegex s = None"
  by (simp add: exec2_def existingLinksRegex_def)

lemma existingLinks_no_anchor:
  assumes "\<not> includes_str p (js ''<a'')" and "p = [] \<or> last p \<noteq> 0x3C"
  shows "existingLinks (p @ s) = existingLinks s"
  using assms
proof (induction p)
  case Nil
  then show ?case by simp
next
  case (Cons c p)
  have "\<not> prefix (js ''<a'') (c # p @ s)"
  proof (cases p)
    case Nil
    with Cons.prems show ?thesis by (simp add: js_def)
  next
    case (Cons d p')
    with Cons.prems show ?thesis by (auto simp: js_def)
  qed
  then have "existingLinks ((c # p) @ s) = existingLinks (p @ s)"
    by (simp add: existingLinks_skip exec_link_no_anchor)
  moreover have "\<not> includes_str p (js ''<a'')" and "p = [] \<or> last p \<noteq> 0x3C"
    using Cons.prems by (auto split: if_splits)
  ultimately show ?case
    using Cons.IH by simp
qed


lemma existingLinks_anchor:
  assumes "blank w1" "blank w2" "blank w3" "blank w4" "blank w5" and "good_name n"
    and "t \<noteq> []" and "0x3C \<notin> set t" and "\<not> isSpace (hd t)"
  shows "existingLinks (anchor w1 n w2 w3 w4 w5 t @ rest) = link n t # existingLinks rest"
  by (simp add: existingLinks_match exec_anchor [OF assms])

subsection \<open>What a match of the link pattern looks like\<close>

lemma take_takeWhile:
  assumes "j \<le> length (takeWhile P s)"
  shows "list_all P (take j s) \<and> length (take j s) = j"
proof -
  have "take j s = take j (takeWhile P s)"
    using assms by (metis append_eq_conv_conj takeWhile_dropWhile_id take_append
        diff_is_0_eq take_0 append_Nil2)
  moreover have "list_all P (takeWhile P s)"
    by (simp add: list_all_iff) (meson set_takeWhileD)
  ultimately show ?thesis
    using assms by (auto simp: list_all_iff dest: in_set_takeD)
qed

lemma match_Lit_D:
  assumes "match_rx (Lit l # r) s = Some v"
  obtains s' where "s = l @ s'" and "match_rx r s' = Some v"
  using assms by (auto simp: prefix_def split: if_splits)

lemma match_Plus_D:
  assumes "match_rx (Plus P # r) s = Some v"
  obtains w s' where "s = w @ s'" and "w \<noteq> []" and "list_all P w" and "match_rx r s' = Some v"
    and "\<And>i. length w < i \<Longrightarrow> i \<le> length (takeWhile P s) \<Longrightarrow> match_rx r (drop i s) = None"
proof -
  from assms have "greedy (\<lambda>n. match_rx r (drop n s)) (length (takeWhile P s)) = Some v"
    by simp
  from greedy_SomeD [OF this] obtain j where j: "0 < j" "j \<le> length (takeWhile P s)"
    "match_rx r (drop j s) = Some v"
    "\<forall>i. j < i \<and> i \<le> length (takeWhile P s) \<longrightarrow> match_rx r (drop i s) = None"
    by blast
  from take_takeWhile [OF j(2)] have "list_all P (take j s)" and "length (take j s) = j"
    by auto
  with j show ?thesis
    by (intro that [of "take j s" "drop j s"]) auto
qed

lemma match_Group_Plus_D:
  assumes "match_rx (Group_Plus P # r) s = Some (caps, rest)"
  obtains g caps' s' where "s = g @ s'" and "g \<noteq> []" and "list_all P g" and "caps = g # caps'"
    and "match_rx r s' = Some (caps', rest)"
proof -
  from assms have "greedy (\<lambda>n. capture (take n s) (match_rx r (drop n s)))
      (length (takeWhile P s)) = Some (caps, rest)"
    by simp
  from greedy_SomeD [OF this] obtain j where j: "0 < j" "j \<le> length (takeWhile P s)"
    "capture (take j s) (match_rx r (drop j s)) = Some (caps, rest)"
    by blast
  from take_takeWhile [OF j(2)] have "list_all P (take j s)" and "length (take j s) = j"
    by auto
  moreover from j(3) obtain caps' where "caps = take j s # caps'"
    and "match_rx r (drop j s) = Some (caps', rest)"
    by (auto simp: capture_def)
  ultimately show ?thesis
    using j(1) by (intro that [of "take j s" "drop j s" caps']) auto
qed

lemma exec_link_sound:
  assumes "exec2 existingLinksRegex s = Some (n, t, rest)"
  shows "good_name n \<and> good_title t \<and>
    (\<exists>w1 w2 w3 w4 w5. blank w1 \<and> blank w2 \<and> blank w3 \<and> blank w4 \<and> blank w5 \<and>
       s = anchor w1 n w2 w3 w4 w5 t @ rest)"
proof -
  let ?tail = "[Group_Plus (\<lambda>c. c \<noteq> 0x3C), Lit (js ''</a></br>'')]"
  let ?r11 = "Plus isSpace # ?tail"
  let ?r10 = \<open>Lit (js ''margin-bottom:200px;">'' @ [glyph]) # ?r11\<close>
  let ?r9 = "Plus isSpace # ?r10"
  let ?r8 = "Lit (js ''bold;'') # ?r9"
  let ?r7 = "Plus isSpace # ?r8"
  let ?r6 = \<open>Lit (js ''style="font-weight:'') # ?r7\<close>
  let ?r5 = "Plus isSpace # ?r6"
  let ?r4 = \<open>Lit (js ''/"'') # ?r5\<close>
  let ?r3 = "Group_Plus (\<lambda>c. c \<noteq> 0x22) # ?r4"
  let ?r2 = \<open>Lit (js ''href="./'') # ?r3\<close>
  let ?r1 = "Plus isSpace # ?r2"
  from assms have "match_rx existingLinksRegex s = Some ([n, t], rest)"
    by (auto simp: exec2_def split: option.splits list.splits)
  then have m: "match_rx (Lit (js ''<a'') # ?r1) s = Some ([n, t], rest)"
    by (simp only: existingLinksRegex_def)
  from m obtain s1 where s1: "s = js ''<a'' @ s1"
    and m1: "match_rx ?r1 s1 = Some ([n, t], rest)"
    by (elim match_Lit_D)
  from m1 obtain w1 s2 where s2: "s1 = w1 @ s2" "w1 \<noteq> []" "list_all isSpace w1"
    and m2: "match_rx ?r2 s2 = Some ([n, t], rest)"
    by (elim match_Plus_D)
  from m2 obtain s3 where s3: \<open>s2 = js ''href="./'' @ s3\<close>
    and m3: "match_rx ?r3 s3 = Some ([n, t], rest)"
    by (elim match_Lit_D)
  from m3 obtain g caps s4 where s4: "s3 = g @ s4" "g \<noteq> []" "list_all (\<lambda>c. c \<noteq> 0x22) g"
    "[n, t] = g # caps"
    and m4: "match_rx ?r4 s4 = Some (caps, rest)"
    by (elim match_Group_Plus_D)
  from s4 have g: "g = n" and caps: "caps = [t]"
    by auto
  from m4 obtain s5 where s5: \<open>s4 = js ''/"'' @ s5\<close>
    and m5: "match_rx ?r5 s5 = Some ([t], rest)"
    unfolding caps by (elim match_Lit_D)
  from m5 obtain w2 s6 where s6: "s5 = w2 @ s6" "w2 \<noteq> []" "list_all isSpace w2"
    and m6: "match_rx ?r6 s6 = Some ([t], rest)"
    by (elim match_Plus_D)
  from m6 obtain s7 where s7: \<open>s6 = js ''style="font-weight:'' @ s7\<close>
    and m7: "match_rx ?r7 s7 = Some ([t], rest)"
    by (elim match_Lit_D)
  from m7 obtain w3 s8 where s8: "s7 = w3 @ s8" "w3 \<noteq> []" "list_all isSpace w3"
    and m8: "match_rx ?r8 s8 = Some ([t], rest)"
    by (elim match_Plus_D)
  from m8 obtain s9 where s9: \<open>s8 = js ''bold;'' @ s9\<close>
    and m9: "match_rx ?r9 s9 = Some ([t], rest)"
    by (elim match_Lit_D)
  from m9 obtain w4 s10 where s10: "s9 = w4 @ s10" "w4 \<noteq> []" "list_all isSpace w4"
    and m10: "match_rx ?r10 s10 = Some ([t], rest)"
    by (elim match_Plus_D)
  from m10 obtain s11 where s11: \<open>s10 = (js ''margin-bottom:200px;">'' @ [glyph]) @ s11\<close>
    and m11: "match_rx ?r11 s11 = Some ([t], rest)"
    by (elim match_Lit_D)
  from m11 obtain w5 s12 where s12: "s11 = w5 @ s12" "w5 \<noteq> []" "list_all isSpace w5"
    and m12: "match_rx ?tail s12 = Some ([t], rest)"
    and mx: "\<And>i. length w5 < i \<Longrightarrow> i \<le> length (takeWhile isSpace s11) \<Longrightarrow>
      match_rx ?tail (drop i s11) = None"
    by (elim match_Plus_D) blast
  from m12 obtain g' caps' s13 where s13: "s12 = g' @ s13" "g' \<noteq> []" "list_all (\<lambda>c. c \<noteq> 0x3C) g'"
    "[t] = g' # caps'"
    and m13: "match_rx [Lit (js ''</a></br>'')] s13 = Some (caps', rest)"
    by (elim match_Group_Plus_D)
  from s13 have g': "g' = t"
    by simp
  from m13 have s14: "s13 = js ''</a></br>'' @ rest"
    by (elim match_Lit_D) simp
  have "length t = 1 \<or> \<not> isSpace (hd t)"
  proof (rule ccontr)
    assume "\<not> ?thesis"
    with s13(2) g' obtain c t' where t: "t = c # t'" "t' \<noteq> []" "isSpace c"
      by (cases t) auto
    have "takeWhile isSpace s11 = w5 @ takeWhile isSpace s12"
      using s12 by (simp add: takeWhile_append list_all_iff)
    then have "Suc (length w5) \<le> length (takeWhile isSpace s11)"
      using s13(1) g' t by simp
    then have "match_rx ?tail (drop (Suc (length w5)) s11) = None"
      by (intro mx) auto
    moreover have "drop (Suc (length w5)) s11 = t' @ js ''</a></br>'' @ rest"
      using s12(1) s13(1) g' t s14 by simp
    moreover have "match_rx ?tail (t' @ js ''</a></br>'' @ rest) = Some ([t'], rest)"
      using t s13(3) g' by (intro match_Group_Plus_run) (auto simp: js_def list_all_iff)
    ultimately show False
      by simp
  qed
  moreover have "s = anchor w1 n w2 w3 w4 w5 t @ rest"
    unfolding anchor_def s1 s2(1) s3 s4(1) s5 s6(1) s7 s8(1) s9 s10(1) s11 s12(1) s13(1) s14 g g'
    by simp
  moreover have "good_name n"
    using s4(2,3) g by (auto simp: good_name_def list_all_iff)
  moreover have "t \<noteq> []" and "0x3C \<notin> set t"
    using s13(2,3) g' by (auto simp: list_all_iff)
  moreover have "blank w1" "blank w2" "blank w3" "blank w4" "blank w5"
    using s2(2,3) s6(2,3) s8(2,3) s10(2,3) s12(2,3) by (simp_all add: blank_def)
  ultimately show ?thesis
    unfolding good_title_def by blast
qed

lemma includes_str_append_left: "includes_str s x \<Longrightarrow> includes_str (p @ s) x"
  by (auto simp: includes_str_sublist sublist_append)

lemma includes_str_middle: "includes_str (p @ x @ q) x"
  by (simp add: includes_str_sublist)

lemma rendered_from_mono:
  assumes "rendered_from s' l" and "\<And>x. includes_str s' x \<Longrightarrow> includes_str s x"
  shows "rendered_from s l"
proof -
  from assms(1) obtain n t w1 w2 w3 w4 w5 where "l = link n t" "good_name n" "good_title t"
    "blank w1" "blank w2" "blank w3" "blank w4" "blank w5"
    "includes_str s' (anchor w1 n w2 w3 w4 w5 t)"
    unfolding rendered_from_def by blast
  with assms(2) [of "anchor w1 n w2 w3 w4 w5 t"] show ?thesis
    unfolding rendered_from_def by blast
qed

lemma rendered_from_match:
  assumes "exec2 existingLinksRegex s = Some (n, t, rest)"
  shows "rendered_from s (link n t)"
proof -
  from exec_link_sound [OF assms] obtain w1 w2 w3 w4 w5
    where g: "good_name n" "good_title t"
      and b: "blank w1" "blank w2" "blank w3" "blank w4" "blank w5"
      and s: "s = anchor w1 n w2 w3 w4 w5 t @ rest"
    by blast
  have "includes_str s (anchor w1 n w2 w3 w4 w5 t)"
    using includes_str_middle [of "[]"] s by simp
  with g b show ?thesis
    unfolding rendered_from_def by blast
qed

lemma existingLinks_sound: "l \<in> set (existingLinks s) \<Longrightarrow> rendered_from s l"
proof (induction s arbitrary: l rule: existingLinks.induct)
  case (1 s)
  show ?case
  proof (cases "exec2 existingLinksRegex s")
    case None
    show ?thesis
    proof (cases s)
      case Nil
      with "1.prems" show ?thesis by (simp add: existingLinks_Nil)
    next
      case (Cons c s')
      with None "1.prems" have "l \<in> set (existingLinks s')"
        by (simp add: existingLinks_skip)
      then have "rendered_from s' l"
        by (rule "1.IH"(1) [OF None Cons])
      moreover have "includes_str s x" if "includes_str s' x" for x
        using includes_str_append_left [OF that, of "[c]"] Cons by simp
      ultimately show ?thesis
        by (rule rendered_from_mono)
    qed
  next
    case (Some r)
    then obtain n t rest where r: "exec2 existingLinksRegex s = Some (n, t, rest)"
      by (cases r) auto
    from exec_link_sound [OF r] obtain w where s: "s = w @ rest"
      by blast
    have "existingLinks s = link n t # existingLinks rest"
      by (rule existingLinks_match [OF r])
    with "1.prems" consider "l = link n t" | "l \<in> set (existingLinks rest)"
      by auto
    then show ?thesis
    proof cases
      case 1
      then show ?thesis
        using rendered_from_match [OF r] by simp
    next
      case 2
      then have "rendered_from rest l"
        by (rule "1.IH"(2) [OF r refl refl])
      moreover have "includes_str s x" if "includes_str rest x" for x
        using includes_str_append_left [OF that] s by simp
      ultimately show ?thesis
        by (rule rendered_from_mono)
    qed
  qed
qed

text \<open>
  Claim C10, amended.  An anchor of the tolerant shape (any white space where the pattern
  has \<^verbatim>\<open>\s+\<close>, a title that may differ from the directory of the \<^verbatim>\<open>href\<close>), met by the
  search, is rendered as the canonical link with the directory of its \<^verbatim>\<open>href\<close> and its
  title; every extracted link is the canonical rendering of such an anchor of the input;
  so every entry of the collected link list is a canonical link.
\<close>

theorem link_extraction_normalises:
  "(blank w1 \<and> blank w2 \<and> blank w3 \<and> blank w4 \<and> blank w5 \<and> good_name n \<and>
    t \<noteq> [] \<and> 0x3C \<notin> set t \<and> \<not> isSpace (hd t) \<and>
    \<not> includes_str p (js ''<a'') \<and> (p = [] \<or> last p \<noteq> 0x3C) \<longrightarrow>
      existingLinks (p @ anchor w1 n w2 w3 w4 w5 t @ rest) = link n t # existingLinks rest)
   \<and> list_all (rendered_from s) (existingLinks s)
   \<and> (collect fs projectDir s = Inr (folderLinks, readmeSections) \<longrightarrow>
        list_all (\<lambda>l. \<exists>n t. l = link n t) folderLinks)"
proof -
  have e: "list_all (\<lambda>l. \<exists>n t. l = link n t) (existingLinks s)"
    using existingLinks_sound [of _ s] unfolding list_all_iff rendered_from_def by blast
  have "list_all (\<lambda>l. \<exists>n t. l = link n t) folderLinks"
    if "collect fs projectDir s = Inr (folderLinks, readmeSections)"
  proof -
    from that obtain dirents where
      "forEach (visit fs projectDir) dirents (existingLinks s, existingSections s) =
        Inr (folderLinks, readmeSections)"
      by (auto simp: collect_def split: sum.splits)
    from forEach_visit_links [OF this] obtain dirNames
      where "folderLinks = existingLinks s @ map (\<lambda>dirName. link dirName dirName) dirNames"
      by blast
    then show ?thesis
      using e by (auto simp: list_all_iff)
  qed
  moreover have "list_all (rendered_from s) (existingLinks s)"
    using existingLinks_sound [of _ s] by (simp add: list_all_iff)
  ultimately show ?thesis
    by (simp add: existingLinks_no_anchor existingLinks_anchor)
qed

theorem link_extraction_normalises_witness:
  "blank (js ''  '') \<and> blank (js ''\<newline>'') \<and> blank (js '' '') \<and> good_name (js ''docs'')
   \<and> \<not> includes_str (js ''- '') (js ''<a'')
   \<and> existingLinks (js ''- '' @
         anchor (js ''  '') (js ''docs'') (js ''\<newline>'') (js '' '') (js '' '') (js ''  '') (js ''My docs'') @
         js ''\<newline>'') =
       link (js ''docs'') (js ''My docs'') # existingLinks (js ''\<newline>'')
   \<and> list_all (rendered_from placeholder) (existingLinks placeholder)
   \<and> collect (tree placeholder [(js ''a'', None)]) repo placeholder = Inr ([link (js ''a'') (js ''a'')], [])
   \<and> list_all (\<lambda>l. \<exists>n t. l = link n t) [link (js ''a'') (js ''a'')]"
proof -
  have b: "blank (js ''  '')" "blank (js ''\<newline>'')" "blank (js '' '')"
    by (simp_all add: blank_def js_def isSpace_def)
  have g: "good_name (js ''docs'')"
    by (simp add: good_name_def js_def)
  have t: "js ''My docs'' \<noteq> []" "0x3C \<notin> set (js ''My docs'')" "\<not> isSpace (hd (js ''My docs''))"
    by (simp_all add: js_def isSpace_def)
  have p: "\<not> includes_str (js ''- '') (js ''<a'')" "js ''- '' = [] \<or> last (js ''- '') \<noteq> 0x3C"
    by (simp_all add: js_def)
  have c: "collect (tree placeholder [(js ''a'', None)]) repo placeholder =
      Inr ([link (js ''a'') (js ''a'')], [])"
    by (simp add: eval_defs)
  from link_extraction_normalises [of "js ''  ''" "js ''\<newline>''" "js '' ''" "js '' ''" "js ''  ''"
      "js ''docs''" "js ''My docs''" "js ''- ''" "js ''\<newline>''" placeholder
      "tree placeholder [(js ''a'', None)]" repo "[link (js ''a'') (js ''a'')]" "[]"]
    b g t p c
  show ?thesis
    by blast
qed

section \<open>Matches of the section pattern\<close>

lemma existingSections_match:
  "exec2 existingSectionsRegex s = Some (title, content, rest) \<Longrightarrow>
    existingSections s = section_of (trim title) (trim content) # existingSections rest"
  by (subst existingSections.simps) simp

lemma existingSections_skip:
  "exec2 existingSectionsRegex (c # s) = None \<Longrightarrow> existingSections (c # s) = existingSections s"
  by (subst existingSections.simps) simp

lemma existingSections_Nil: "existingSections [] = []"
  by (subst existingSections.simps) (simp add: exec2_def existingSectionsRegex_def js_def)

lemma exec_section_no_hash: "\<not> prefix (js ''###'') s \<Longrightarrow> exec2 existingSectionsRegex s = None"
  by (simp add: exec2_def existingSectionsRegex_def)

lemma existingSections_skip_char:
  "c \<noteq> 0x23 \<Longrightarrow> existingSections (c # s) = existingSections s"
  by (simp add: existingSections_skip exec_section_no_hash js_def)

lemma existingSections_no_hash: "0x23 \<notin> set p \<Longrightarrow> existingSections (p @ s) = existingSections s"
  by (induction p) (simp_all add: existingSections_skip_char)

lemma match_Lazy_run:
  assumes "match_rx r q = Some (caps, rest)"
    and "\<And>i. i < length b \<Longrightarrow> match_rx r (drop i b @ q) = None"
  shows "match_rx (Group_Lazy_Star (\<lambda>c. True) # r) (b @ q) = Some (b # caps, rest)"
proof -
  have tw: "takeWhile (\<lambda>c. True) (b @ q) = b @ q"
    by (simp add: takeWhile_eq_all_conv)
  have "lazy (\<lambda>n. capture (take n (b @ q)) (match_rx r (drop n (b @ q)))) 0 (length (b @ q)) =
      Some (b # caps, rest)"
    using assms by (intro lazy_eq [of _ "length b"]) (auto simp: capture_def)
  then show ?thesis
    unfolding match_rx.simps tw .
qed

lemma prefix_append_free:
  assumes "prefix l (a @ q)" and "q = [] \<or> hd q \<notin> set l"
  shows "prefix l a"
proof (rule ccontr)
  assume n: "\<not> prefix l a"
  with assms(1) obtain us where us: "l = a @ us" "prefix us q"
    by (auto simp: prefix_append)
  with n obtain u us' where "us = u # us'"
    by (cases us) auto
  with us have "hd q = u" and "q \<noteq> []" and "u \<in> set l"
    by (auto simp: prefix_def)
  with assms(2) show False
    by auto
qed

lemma prefix_drop_includes:
  assumes "prefix l (drop i x)" and "0 < i"
  shows "includes_str (tl x) l"
proof -
  from assms(1) obtain r where "drop i x = l @ r"
    by (auto simp: prefix_def)
  moreover from assms(2) obtain i' where "i = Suc i'"
    by (cases i) auto
  ultimately have "drop i' (tl x) = l @ r"
    by (simp add: drop_Suc)
  then have "tl x = take i' (tl x) @ l @ r"
    by (metis append_take_drop_id)
  then show ?thesis
    using includes_str_sublist sublist_appendI by metis
qed

lemma no_later_occurrence:
  assumes "\<not> includes_str (tl x) l" and "q = [] \<or> hd q \<notin> set l" and "0 < i"
  shows "\<not> prefix l (drop i x @ q)"
proof
  assume "prefix l (drop i x @ q)"
  then have "prefix l (drop i x)"
    using assms(2) by (rule prefix_append_free)
  from prefix_drop_includes [OF this assms(3)] assms(1) show False
    by simp
qed

lemma greedy_group_exact:
  assumes "h \<noteq> []" and "takeWhile P (h @ s) = h @ x" and "s = x @ q"
    and "match_rx r s = Some (caps, rest)"
    and "\<And>i. 0 < i \<Longrightarrow> i \<le> length x \<Longrightarrow> match_rx r (drop i x @ q) = None"
  shows "match_rx (Group_Plus P # r) (h @ s) = Some (h # caps, rest)"
proof -
  have "match_rx r (drop i (h @ s)) = None" if "length h < i" "i \<le> length (h @ x)" for i
  proof -
    have "drop i (h @ x @ q) = drop (i - length h) x @ q"
      using that by simp
    then show ?thesis
      using that assms(5) [of "i - length h"] assms(3) by simp
  qed
  then have "greedy (\<lambda>n. capture (take n (h @ s)) (match_rx r (drop n (h @ s))))
      (length (h @ x)) = Some (h # caps, rest)"
    using assms(1,4) by (intro greedy_eq [of "length h"]) (auto simp: capture_def)
  then show ?thesis
    unfolding match_rx.simps assms(2) .
qed

text \<open>
  A block: the heading mark, white space, a heading without \<^verbatim>\<open>#\<close>, the separator line, a
  body without \<^verbatim>\<open>#\<close> and without a further separator line, up to the end of the input or
  to a line that starts with \<^verbatim>\<open>###\<close>.
\<close>

lemma exec_section_exact:
  assumes w: "blank w" and h: "h \<noteq> []" "0x23 \<notin> set h" "\<not> isSpace (hd h)"
    and b: "0x23 \<notin> set b"
    and q: "q = [] \<or> prefix (js ''\<newline>###'') q"
    and nosep: "\<not> includes_str (js ''---\<newline>'' @ b @ take 1 q) (js ''\<newline>---\<newline>'')"
  shows "exec2 existingSectionsRegex (js ''###'' @ w @ h @ js ''\<newline>---\<newline>'' @ b @ q) =
    Some (h, b, q)"
proof -
  let ?sep = "js ''\<newline>---\<newline>''"
  let ?look = "[Lookahead_Or_End (js ''\<newline>###'')]"
  let ?r4 = "Group_Lazy_Star (\<lambda>c. True) # ?look"
  let ?r3 = "Lit ?sep # ?r4"
  have q1: "take 1 q = takeWhile (\<lambda>c. c \<noteq> 0x23) q" and q2: "drop 1 q = [] \<or> hd (drop 1 q) = 0x23"
    using q by (auto simp: prefix_def js_def)
  have "match_rx ?look q = Some ([], q)"
    using q by auto
  moreover have "match_rx ?look (drop i b @ q) = None" if "i < length b" for i
  proof -
    from that obtain c r where d: "drop i b = c # r"
      by (cases "drop i b") auto
    then have "set r \<subseteq> set b"
      by (metis set_drop_subset set_subset_Cons subset_trans)
    with b have "0x23 \<notin> set r"
      by auto
    then have "\<not> prefix (js ''\<newline>###'') (c # r @ q)"
      using q by (cases r) (auto simp: js_def prefix_def)
    with d show ?thesis
      by simp
  qed
  ultimately have "match_rx ?r4 (b @ q) = Some ([b], q)"
    by (rule match_Lazy_run)
  then have m3: "match_rx ?r3 (?sep @ b @ q) = Some ([b], q)"
    unfolding match_Lit_append .
  define x where "x = ?sep @ b @ take 1 q"
  have run: "takeWhile (\<lambda>c. c \<noteq> 0x23) (h @ ?sep @ b @ q) = h @ x"
    using h(2) b unfolding x_def
    by (simp add: takeWhile_append2 takeWhile_append q1 [symmetric]) (simp add: js_def)
  have split: "?sep @ b @ q = x @ drop 1 q"
    by (simp add: x_def)
  have tlx: "tl x = js ''---\<newline>'' @ b @ take 1 q"
    by (simp add: x_def js_def)
  have q3: "drop 1 q = [] \<or> hd (drop 1 q) \<notin> set ?sep"
    using q2 by (auto simp: js_def)
  have none: "match_rx ?r3 (drop i x @ drop 1 q) = None" if "0 < i" "i \<le> length x" for i
    using no_later_occurrence [of x ?sep "drop 1 q" i] nosep q3 that by (simp add: tlx)
  have "match_rx (Group_Plus (\<lambda>c. c \<noteq> 0x23) # ?r3) (h @ ?sep @ b @ q) = Some ([h, b], q)"
    using h(1) run split m3 none by (rule greedy_group_exact)
  then have "match_rx (Plus isSpace # Group_Plus (\<lambda>c. c \<noteq> 0x23) # ?r3) (w @ h @ ?sep @ b @ q) =
      Some ([h, b], q)"
    using w h(1,3) by (intro match_Plus_run) (auto simp: blank_def list_all_iff)
  then have "match_rx existingSectionsRegex (js ''###'' @ w @ h @ ?sep @ b @ q) = Some ([h, b], q)"
    unfolding existingSectionsRegex_def match_Lit_append .
  then show ?thesis
    by (simp add: exec2_def)
qed

lemma visit_sections:
  assumes "visit fs projectDir dirent (ls, ss) = Inr (ls', ss')"
  shows "ss' = ss \<or> (\<exists>c. ss' = ss @ [readmeSection (name dirent) c])"
  using assms by (auto simp: visit_def Let_def split: if_splits sum.splits)

lemma forEach_visit_sections:
  assumes "forEach (visit fs projectDir) dirents (ls, ss) = Inr (ls', ss')"
  shows "\<exists>appended. ss' = ss @ appended \<and> list_all (\<lambda>s. \<exists>n c. s = readmeSection n c) appended"
  using assms
proof (induction dirents arbitrary: ls ss)
  case Nil
  then show ?case by simp
next
  case (Cons d dirents)
  from Cons.prems obtain ls1 ss1 where v: "visit fs projectDir d (ls, ss) = Inr (ls1, ss1)"
    and r: "forEach (visit fs projectDir) dirents (ls1, ss1) = Inr (ls', ss')"
    by (auto split: sum.splits)
  from Cons.IH [OF r] obtain app where app: "ss' = ss1 @ app"
    "list_all (\<lambda>s. \<exists>n c. s = readmeSection n c) app"
    by blast
  from visit_sections [OF v] show ?case
  proof
    assume "ss1 = ss"
    with app show ?thesis by blast
  next
    assume "\<exists>c. ss1 = ss @ [readmeSection (name d) c]"
    then obtain c where "ss1 = ss @ [readmeSection (name d) c]" ..
    with app show ?thesis
      by (intro exI [of _ "readmeSection (name d) c # app"]) auto
  qed
qed

section \<open>Evaluating a run\<close>

lemma search_placeholder:
  assumes "0x21 \<notin> set p"
  shows "search (p @ placeholder @ q) placeholder = Some (length p)"
  using assms
proof (induction p)
  case Nil
  then show ?case
    by (cases "placeholder @ q") (auto simp: placeholder_def js_def)
next
  case (Cons c p)
  have "\<not> prefix placeholder (c # p @ placeholder @ q)"
  proof (cases p)
    case Nil
    then show ?thesis
      by (auto simp: placeholder_def js_def)
  next
    case (Cons d p')
    with Cons.prems show ?thesis
      by (auto simp: placeholder_def js_def)
  qed
  with Cons show ?case
    by simp
qed

lemma updatedContent_placeholder:
  assumes "0x21 \<notin> set p"
  shows "updatedContent (p @ placeholder @ q) ls ss =
    p @ placeholder @ js ''\<newline>'' @ join (js ''\<newline>'') ls @ js ''\<newline>'' @
    join (js ''\<newline>'') ss"
  using slice0_insertPosition [OF search_placeholder [OF assms, of q]]
  by (simp add: updatedContent_def)

lemma run_written:
  assumes "readFileSync fs (readmeFilePath projectDir) = Inr t"
    and "collect fs projectDir t = Inr (ls, ss)"
  shows "run projectDir fs = Inr (fs(readmeFilePath projectDir \<mapsto> File (updatedContent t ls ss)))"
    and "written (readmeFilePath projectDir) (run projectDir fs) = Some (updatedContent t ls ss)"
  using updateReadme_write [OF assms] by (simp_all add: run_def written_def)

lemma tree_readme: "readFileSync (tree t subdirs) (readmeFilePath repo) = Inr t"
  by (simp add: readFileSync_def tree_def readmeFilePath_def path_join_def repo_def)

lemma tree_readdir:
  "readdirSync (tree t subdirs) repo =
    Inr (Dirent (js ''README.md'') False # map (\<lambda>(d, c). Dirent d True) subdirs)"
  by (simp add: readdirSync_def tree_def repo_def js_def)

lemma collect_tree_Nil: "collect (tree t []) repo t = Inr (existingLinks t, existingSections t)"
  by (simp add: collect_def tree_readdir visit_not_directory)

text \<open>
  Claim C10, as stated, fails in its last part: a whitespace variant of a link that stands
  before the placeholder is matched and rendered as the canonical link after the
  placeholder, and it also stays where it was, since the text up to the placeholder is
  copied as it is.
\<close>

theorem link_variant_survives:
  "existingLinks
     (anchor (js ''  '') (js ''docs'') (js '' '') (js '' '') (js '' '') (js '' '') (js ''docs'') @
      js ''\<newline>'' @ placeholder) = [link (js ''docs'') (js ''docs'')]
   \<and> anchor (js ''  '') (js ''docs'') (js '' '') (js '' '') (js '' '') (js '' '') (js ''docs'') \<noteq>
       link (js ''docs'') (js ''docs'')
   \<and> written (readmeFilePath repo)
       (run repo (tree (anchor (js ''  '') (js ''docs'') (js '' '') (js '' '') (js '' '') (js '' '')
          (js ''docs'') @ js ''\<newline>'' @ placeholder) [])) =
       Some (anchor (js ''  '') (js ''docs'') (js '' '') (js '' '') (js '' '') (js '' '') (js ''docs'') @
         js ''\<newline>'' @ placeholder @ js ''\<newline>'' @ link (js ''docs'') (js ''docs'') @ js ''\<newline>'')
   \<and> includes_str
       (anchor (js ''  '') (js ''docs'') (js '' '') (js '' '') (js '' '') (js '' '') (js ''docs'') @
         js ''\<newline>'' @ placeholder @ js ''\<newline>'' @ link (js ''docs'') (js ''docs'') @ js ''\<newline>'')
       (anchor (js ''  '') (js ''docs'') (js '' '') (js '' '') (js '' '') (js '' '') (js ''docs''))"
proof -
  let ?a = "anchor (js ''  '') (js ''docs'') (js '' '') (js '' '') (js '' '') (js '' '') (js ''docs'')"
  let ?t = "?a @ js ''\<newline>'' @ placeholder"
  have b: "blank (js ''  '')" "blank (js '' '')"
    by (simp_all add: blank_def js_def isSpace_def)
  have g: "good_name (js ''docs'')" "js ''docs'' \<noteq> []" "0x3C \<notin> set (js ''docs'')"
    "\<not> isSpace (hd (js ''docs''))"
    by (simp_all add: good_name_def js_def isSpace_def)
  have "existingLinks (js ''\<newline>'' @ placeholder @ []) = existingLinks []"
    unfolding append_assoc [symmetric]
    by (rule existingLinks_no_anchor) (simp_all add: placeholder_def js_def)
  then have l: "existingLinks ?t = [link (js ''docs'') (js ''docs'')]"
    using existingLinks_anchor [OF b(1) b(2) b(2) b(2) b(2) g, of "js ''\<newline>'' @ placeholder"]
    by (simp add: existingLinks_Nil)
  have s: "existingSections ?t = []"
    using existingSections_no_hash [of ?t "[]"]
    by (simp add: existingSections_Nil anchor_def placeholder_def js_def glyph_def)
  have ne: "?a \<noteq> link (js ''docs'') (js ''docs'')"
    by (simp add: anchor_def link_def js_def)
  have "0x21 \<notin> set (?a @ js ''\<newline>'')"
    by (simp add: anchor_def js_def glyph_def)
  from updatedContent_placeholder [OF this, of "[]"]
  have "updatedContent ?t [link (js ''docs'') (js ''docs'')] [] =
      ?t @ js ''\<newline>'' @ link (js ''docs'') (js ''docs'') @ js ''\<newline>''"
    by simp
  with run_written(2) [OF tree_readme collect_tree_Nil, of ?t] l s
  have w: "written (readmeFilePath repo) (run repo (tree ?t [])) =
      Some (?t @ js ''\<newline>'' @ link (js ''docs'') (js ''docs'') @ js ''\<newline>'')"
    by simp
  have "includes_str ([] @ ?a @
      js ''\<newline>'' @ placeholder @ js ''\<newline>'' @ link (js ''docs'') (js ''docs'') @ js ''\<newline>'') ?a"
    by (rule includes_str_middle)
  with l ne w show ?thesis
    by simp
qed

subsection \<open>What a match of the section pattern looks like\<close>

lemma match_Lazy_D:
  assumes "match_rx (Group_Lazy_Star (\<lambda>c. True) # r) s = Some (caps, rest)"
  obtains b caps' s' where "s = b @ s'" and "caps = b # caps'"
    and "match_rx r s' = Some (caps', rest)"
    and "\<And>i. i < length b \<Longrightarrow> match_rx r (drop i b @ s') = None"
proof -
  let ?k = "\<lambda>n. capture (take n s) (match_rx r (drop n s))"
  from assms have "lazy ?k 0 (length (takeWhile (\<lambda>c. True) s)) = Some (caps, rest)"
    by simp
  from lazy_SomeD [OF this] obtain j where j: "j \<le> length s" "?k j = Some (caps, rest)"
    "\<forall>i. i < j \<longrightarrow> ?k i = None"
    by (auto simp: takeWhile_eq_all_conv [THEN iffD2])
  from j(2) obtain caps' where c: "caps = take j s # caps'" "match_rx r (drop j s) = Some (caps', rest)"
    by (auto simp: capture_def)
  have "match_rx r (drop i (take j s) @ drop j s) = None" if "i < length (take j s)" for i
  proof -
    from that have "i < j"
      by simp
    with j(3) have "match_rx r (drop i s) = None"
      by (auto simp: capture_def)
    moreover have "drop i (take j s) @ drop j s = drop i s"
      using \<open>i < j\<close> by (metis append_take_drop_id drop_append less_imp_le_nat drop_take
          diff_is_0_eq drop_0 length_take min.absorb2 j(1) order_less_imp_le)
    ultimately show ?thesis
      by simp
  qed
  with c show ?thesis
    by (intro that [of "take j s" "drop j s" caps']) auto
qed

lemma exec_section_sound:
  assumes "exec2 existingSectionsRegex s = Some (title, body, rest)"
  shows "\<exists>w. blank w \<and> title \<noteq> [] \<and> 0x23 \<notin> set title \<and>
      s = js ''###'' @ w @ title @ js ''\<newline>---\<newline>'' @ body @ rest \<and>
      (rest = [] \<or> prefix (js ''\<newline>###'') rest) \<and>
      (\<forall>i<length body. \<not> prefix (js ''\<newline>###'') (drop i body @ rest))"
proof -
  let ?look = "[Lookahead_Or_End (js ''\<newline>###'')]"
  let ?r4 = "Group_Lazy_Star (\<lambda>c. True) # ?look"
  let ?r3 = "Lit (js ''\<newline>---\<newline>'') # ?r4"
  let ?r2 = "Group_Plus (\<lambda>c. c \<noteq> 0x23) # ?r3"
  let ?r1 = "Plus isSpace # ?r2"
  from assms have "match_rx existingSectionsRegex s = Some ([title, body], rest)"
    by (auto simp: exec2_def split: option.splits list.splits)
  then have m: "match_rx (Lit (js ''###'') # ?r1) s = Some ([title, body], rest)"
    by (simp only: existingSectionsRegex_def)
  from m obtain s1 where s1: "s = js ''###'' @ s1"
    and m1: "match_rx ?r1 s1 = Some ([title, body], rest)"
    by (elim match_Lit_D)
  from m1 obtain w s2 where s2: "s1 = w @ s2" "w \<noteq> []" "list_all isSpace w"
    and m2: "match_rx ?r2 s2 = Some ([title, body], rest)"
    by (elim match_Plus_D)
  from m2 obtain g caps s3 where s3: "s2 = g @ s3" "g \<noteq> []" "list_all (\<lambda>c. c \<noteq> 0x23) g"
    "[title, body] = g # caps"
    and m3: "match_rx ?r3 s3 = Some (caps, rest)"
    by (elim match_Group_Plus_D)
  from s3 have g: "g = title" and caps: "caps = [body]"
    by auto
  from m3 obtain s4 where s4: "s3 = js ''\<newline>---\<newline>'' @ s4"
    and m4: "match_rx ?r4 s4 = Some ([body], rest)"
    unfolding caps by (elim match_Lit_D)
  from m4 obtain b caps' s5 where s5: "s4 = b @ s5" "[body] = b # caps'"
    and m5: "match_rx ?look s5 = Some (caps', rest)"
    and mn: "\<And>i. i < length b \<Longrightarrow> match_rx ?look (drop i b @ s5) = None"
    by (elim match_Lazy_D) blast
  from s5 have b: "b = body"
    by simp
  from m5 have r: "s5 = rest" "rest = [] \<or> prefix (js ''\<newline>###'') rest"
    by (auto split: if_splits)
  have "\<not> prefix (js ''\<newline>###'') (drop i body @ rest)" if "i < length body" for i
    using mn [of i] that unfolding b r(1) by (auto split: if_splits)
  moreover have "s = js ''###'' @ w @ title @ js ''\<newline>---\<newline>'' @ body @ rest"
    unfolding s1 s2(1) s3(1) s4 s5(1) g b r(1) by simp
  moreover have "blank w" "title \<noteq> []" "0x23 \<notin> set title"
    using s2(2,3) s3(2,3) g by (auto simp: blank_def list_all_iff)
  ultimately show ?thesis
    using r(2) by blast
qed

text \<open>
  A match that starts before a blank line followed by a heading mark ends before that
  mark: neither the heading nor the separator can hold \<^verbatim>\<open>#\<close>, the separator cannot end
  on the second of two line breaks, and the lazy body stops at the first line break that
  is followed by \<^verbatim>\<open>###\<close>.  So the search always reaches that heading mark.
\<close>

lemma section_match_stops:
  assumes eq: "u @ js ''\<newline>\<newline>###'' @ v = js ''###'' @ x @ js ''\<newline>---\<newline>'' @ body @ rest"
    and x: "0x23 \<notin> set x"
    and min: "\<forall>i<length body. \<not> prefix (js ''\<newline>###'') (drop i body @ rest)"
  shows "length (js ''###'' @ x @ js ''\<newline>---\<newline>'' @ body) \<le> length u + 1"
proof -
  define S where "S = u @ js ''\<newline>\<newline>###'' @ v"
  define A where "A = js ''###'' @ x @ js ''\<newline>---\<newline>''"
  define m where "m = length A"
  have m: "m = length x + 8"
    by (simp add: m_def A_def js_def)
  have SA: "S = A @ body @ rest"
    using eq by (simp add: S_def A_def)
  have u: "u \<noteq> []"
    using eq by (cases u) (auto simp: js_def)
  have S_nl: "S ! length u = 0x0A" and S_hash: "S ! (length u + 2) = 0x23"
    by (simp_all add: S_def nth_append js_def)
  have A_nth: "S ! k = A ! k" if "k < m" for k
    using that by (simp add: SA nth_append m_def)
  have A_tail: "A ! k \<noteq> 0x23" if "3 \<le> k" "k < m" for k
  proof -
    have "length (js ''###'') = 3"
      by (simp add: js_def)
    moreover have "A ! k = (x @ js ''\<newline>---\<newline>'') ! (k - length (js ''###''))"
      unfolding A_def using that by (subst nth_append) (simp add: js_def)
    ultimately have "A ! k = (x @ js ''\<newline>---\<newline>'') ! (k - 3)"
      by simp
    moreover have "k - 3 < length (x @ js ''\<newline>---\<newline>'')"
      using that m by (simp add: js_def)
    ultimately have "A ! k \<in> set (x @ js ''\<newline>---\<newline>'')"
      by (metis nth_mem)
    then show ?thesis
      using x by (auto simp: js_def)
  qed
  have A_dash: "A ! (m - 2) = 0x2D"
    by (simp add: A_def m nth_append js_def)
  have step1: "m \<le> length u + 1"
  proof (rule ccontr)
    assume "\<not> m \<le> length u + 1"
    then consider "m = length u + 2" | "length u + 3 \<le> m"
      by linarith
    then show False
    proof cases
      case 1
      then have "S ! length u = A ! (m - 2)"
        using A_nth [of "length u"] by simp
      with S_nl A_dash show False
        by simp
    next
      case 2
      then have "S ! (length u + 2) = A ! (length u + 2)"
        by (intro A_nth) simp
      moreover have "A ! (length u + 2) \<noteq> 0x23"
        using 2 u by (intro A_tail) (auto simp: Suc_le_eq)
      ultimately show False
        using S_hash by simp
    qed
  qed
  have "m + length body \<le> length u + 1"
  proof (rule ccontr)
    assume n: "\<not> m + length body \<le> length u + 1"
    define i where "i = length u + 1 - m"
    have i: "i < length body" "m + i = length u + 1"
      using n step1 by (auto simp: i_def)
    have "drop (m + i) S = drop i body @ rest"
      using i(1) by (simp add: SA m_def)
    moreover have "drop (length u + 1) S = js ''\<newline>###'' @ v"
      by (simp add: S_def js_def)
    ultimately have "prefix (js ''\<newline>###'') (drop i body @ rest)"
      using i(2) by simp
    with min i(1) show False
      by simp
  qed
  then show ?thesis
    by (simp add: m_def A_def)
qed

lemma existingSections_reaches:
  "\<exists>ss. existingSections (u @ js ''\<newline>\<newline>###'' @ v) = ss @ existingSections (js ''###'' @ v)"
proof (induction "length u" arbitrary: u rule: less_induct)
  case less
  let ?V = "js ''\<newline>\<newline>###'' @ v"
  have skip2: "existingSections ?V = existingSections (js ''###'' @ v)"
    by (simp add: js_def existingSections_skip_char)
  have skip1: "existingSections (js ''\<newline>###'' @ v) = existingSections (js ''###'' @ v)"
    by (simp add: js_def existingSections_skip_char)
  show ?case
  proof (cases "exec2 existingSectionsRegex (u @ ?V)")
    case None
    show ?thesis
    proof (cases u)
      case Nil
      with skip2 show ?thesis
        by (intro exI [of _ "[]"]) simp
    next
      case (Cons c u')
      with None have "existingSections (u @ ?V) = existingSections (u' @ ?V)"
        by (simp add: existingSections_skip)
      with less [of u'] Cons show ?thesis
        by simp
    qed
  next
    case (Some r)
    then obtain title body rest where r: "exec2 existingSectionsRegex (u @ ?V) = Some (title, body, rest)"
      by (cases r) auto
    from exec_section_sound [OF r] obtain w where w: "blank w" "title \<noteq> []" "0x23 \<notin> set title"
      "u @ ?V = js ''###'' @ w @ title @ js ''\<newline>---\<newline>'' @ body @ rest"
      "\<forall>i<length body. \<not> prefix (js ''\<newline>###'') (drop i body @ rest)"
      by blast
    have "0x23 \<notin> set (w @ title)"
      using w(1,3) by (auto simp: blank_def list_all_iff isSpace_def)
    with w(4,5) have le: "length (js ''###'' @ (w @ title) @ js ''\<newline>---\<newline>'' @ body) \<le> length u + 1"
      by (intro section_match_stops [where v = v and rest = rest]) simp_all
    define e where "e = length (js ''###'' @ (w @ title) @ js ''\<newline>---\<newline>'' @ body)"
    have "u @ ?V = (js ''###'' @ (w @ title) @ js ''\<newline>---\<newline>'' @ body) @ rest"
      using w(4) by simp
    then have "drop e (u @ ?V) = rest"
      unfolding e_def by (metis append_eq_conv_conj)
    then have e: "0 < e" "e \<le> length u + 1" "rest = drop e (u @ ?V)"
      using le by (simp_all add: e_def js_def)
    have m: "existingSections (u @ ?V) = section_of (trim title) (trim body) # existingSections rest"
      by (rule existingSections_match [OF r])
    show ?thesis
    proof (cases "e \<le> length u")
      case True
      with e(1,3) have "rest = drop e u @ ?V" and "length (drop e u) < length u"
        by auto
      with less [of "drop e u"] obtain ss where
        "existingSections rest = ss @ existingSections (js ''###'' @ v)"
        by auto
      with m show ?thesis
        by (intro exI [of _ "section_of (trim title) (trim body) # ss"]) simp
    next
      case False
      with e(2) have "e = Suc (length u)"
        by simp
      with e(3) have "rest = js ''\<newline>###'' @ v"
        by (simp add: js_def)
      with m skip1 show ?thesis
        by (intro exI [of _ "[section_of (trim title) (trim body)]"]) simp
    qed
  qed
qed

section \<open>Joining, trimming\<close>

lemma join_Cons: "join sep (x # xs) = (if xs = [] then x else x @ sep @ join sep xs)"
  by (cases xs) simp_all

lemma join_split:
  "join sep (pre @ x # post) =
    (if pre = [] then [] else join sep pre @ sep) @ x @ (if post = [] then [] else sep @ join sep post)"
  by (induction pre) (simp_all add: join_Cons)

lemma trim_id:
  assumes "d \<noteq> []" and "\<not> isSpace (hd d)" and "\<not> isSpace (last d)"
  shows "trim d = d"
proof -
  have "dropWhile isSpace d = d"
    using assms(2) by (simp add: dropWhile_eq_self_iff)
  moreover have "dropWhile isSpace (rev d) = rev d"
    using assms(1,3) by (simp add: dropWhile_eq_self_iff hd_rev)
  ultimately show ?thesis
    by (simp add: trim_def)
qed

lemma replicate_20:
  "replicate 20 x = [x, x, x, x, x, x, x, x, x, x, x, x, x, x, x, x, x, x, x, x]"
  by (simp add: numeral_eq_Suc)

lemma trim_Hello:
  "trim (js ''Hello\<newline>'' @ replicate 20 0x20) = js ''Hello''"
  "trim (js ''Hello\<newline>'' @ replicate 20 0x20 @ js ''\<newline>'') = js ''Hello''"
  by (simp_all add: trim_def js_def isSpace_def replicate_20)

section \<open>The shape of the collected sections\<close>

lemma readmeSection_section_of:
  "readmeSection n c = js ''\<newline>'' @ section_of n c @ js ''\<newline>'' @ replicate 20 0x20"
  by (simp add: readmeSection_def section_of_def js_def)

lemma readmeSection_eq_iff: "readmeSection n c = readmeSection d c' \<longleftrightarrow> section_of n c = section_of d c'"
  by (simp add: readmeSection_section_of)

lemma section_of_neq_readmeSection: "section_of a b \<noteq> readmeSection n c"
  by (simp add: readmeSection_def section_of_def js_def)

lemma existingSections_shape: "s \<in> set (existingSections t) \<Longrightarrow> \<exists>a b. s = section_of a b"
proof (induction t arbitrary: s rule: existingSections.induct)
  case (1 t)
  show ?case
  proof (cases "exec2 existingSectionsRegex t")
    case None
    show ?thesis
    proof (cases t)
      case Nil
      with "1.prems" show ?thesis by (simp add: existingSections_Nil)
    next
      case (Cons c t')
      with None "1.prems" have "s \<in> set (existingSections t')"
        by (simp add: existingSections_skip)
      then show ?thesis
        by (rule "1.IH"(1) [OF None Cons])
    qed
  next
    case (Some r)
    then obtain title body rest where r: "exec2 existingSectionsRegex t = Some (title, body, rest)"
      by (cases r) auto
    from "1.prems" existingSections_match [OF r]
    consider "s = section_of (trim title) (trim body)" | "s \<in> set (existingSections rest)"
      by auto
    then show ?thesis
    proof cases
      case 1
      then show ?thesis by blast
    next
      case 2
      then show ?thesis
        by (rule "1.IH"(2) [OF r refl refl])
    qed
  qed
qed

lemma readmeSection_not_extracted: "readmeSection n c \<notin> set (existingSections t)"
  using existingSections_shape [of "readmeSection n c" t] section_of_neq_readmeSection
  by metis

section \<open>The walk over the entries\<close>

lemma visit_update_readme:
  "visit (fs(readmeFilePath projectDir \<mapsto> x)) projectDir dirent acc = visit fs projectDir dirent acc"
  by (cases acc)
    (simp add: visit_def Let_def existsSync_def readFileSync_def readmeFilePath_def path_join_def)

lemma readdirSync_update_readme:
  "readdirSync (fs(readmeFilePath projectDir \<mapsto> File x)) projectDir = readdirSync fs projectDir"
  by (simp add: readdirSync_def readmeFilePath_def path_join_def)


lemma visit_sections_precise:
  assumes "visit fs projectDir dirent (ls, ss) = Inr (ls', ss')"
  shows "ss' = ss \<or>
    (\<exists>c. ss' = ss @ [readmeSection (name dirent) c] \<and>
      \<not> list_ex (\<lambda>s. includes_str s (section_of (name dirent) c)) ss)"
  using assms by (auto simp: visit_def Let_def section_of_def split: if_splits sum.splits)

lemma visit_Inr_any:
  assumes "visit fs projectDir dirent acc = Inr r"
  shows "\<exists>r'. visit fs projectDir dirent acc' = Inr r'"
  using assms by (cases acc; cases acc') (auto simp: visit_def Let_def split: if_splits sum.splits)

lemma forEach_visit_Inr_any:
  assumes "forEach (visit fs projectDir) dirents acc = Inr r"
  shows "\<exists>r'. forEach (visit fs projectDir) dirents acc' = Inr r'"
  using assms
proof (induction dirents arbitrary: acc acc' r)
  case Nil
  then show ?case by simp
next
  case (Cons d dirents)
  from Cons.prems obtain a where a: "visit fs projectDir d acc = Inr a"
    and r: "forEach (visit fs projectDir) dirents a = Inr r"
    by (auto split: sum.splits)
  from visit_Inr_any [OF a] obtain a' where "visit fs projectDir d acc' = Inr a'"
    by blast
  with Cons.IH [OF r, of a'] show ?case
    by simp
qed

lemma includes_str_refl: "includes_str s s"
  by (simp add: includes_str_sublist)

lemma readmeSection_includes: "includes_str (readmeSection n c) (section_of n c)"
  unfolding readmeSection_section_of by (rule includes_str_middle)

lemma forEach_visit_keeps:
  assumes "forEach (visit fs projectDir) dirents (ls, ss) = Inr (ls', ss')"
    and "list_ex P ss"
  shows "list_ex P ss'"
  using forEach_visit_sections [OF assms(1)] assms(2) by (auto simp: list_ex_iff)

lemma forEach_visit_covers:
  assumes "forEach (visit fs projectDir) dirents (ls, ss) = Inr (ls', ss')"
    and "Dirent d True \<in> set dirents"
    and "readFileSync fs (path_join (path_join projectDir d) (js ''README.md'')) = Inr c"
  shows "list_ex (\<lambda>s. includes_str s (section_of d (trim c))) ss'"
  using assms(1,2)
proof (induction dirents arbitrary: ls ss)
  case Nil
  then show ?case by simp
next
  case (Cons e dirents)
  from Cons.prems(1) obtain ls1 ss1 where v: "visit fs projectDir e (ls, ss) = Inr (ls1, ss1)"
    and r: "forEach (visit fs projectDir) dirents (ls1, ss1) = Inr (ls', ss')"
    by (auto split: sum.splits)
  show ?case
  proof (cases "e = Dirent d True")
    case True
    have "existsSync fs (path_join (path_join projectDir d) (js ''README.md''))"
      using assms(3) by (auto simp: existsSync_def readFileSync_def split: option.splits)
    with v True assms(3) have "list_ex (\<lambda>s. includes_str s (section_of d (trim c))) ss1"
      using readmeSection_includes [of d "trim c"]
      by (auto simp: visit_def Let_def section_of_def split: if_splits)
    with r show ?thesis
      by (rule forEach_visit_keeps)
  next
    case False
    with Cons.prems(2) have "Dirent d True \<in> set dirents"
      by simp
    with r show ?thesis
      by (rule Cons.IH)
  qed
qed

lemma forEach_visit_no_duplicate:
  assumes "forEach (visit fs projectDir) dirents (ls, ss) = Inr (ls', ss')"
    and "list_ex (\<lambda>s. includes_str s (section_of d c)) ss"
    and "readmeSection d c \<notin> set ss"
  shows "readmeSection d c \<notin> set ss'"
  using assms
proof (induction dirents arbitrary: ls ss)
  case Nil
  then show ?case by simp
next
  case (Cons e dirents)
  from Cons.prems(1) obtain ls1 ss1 where v: "visit fs projectDir e (ls, ss) = Inr (ls1, ss1)"
    and r: "forEach (visit fs projectDir) dirents (ls1, ss1) = Inr (ls', ss')"
    by (auto split: sum.splits)
  from visit_sections_precise [OF v] have "list_ex (\<lambda>s. includes_str s (section_of d c)) ss1
    \<and> readmeSection d c \<notin> set ss1"
  proof
    assume "ss1 = ss"
    with Cons.prems show ?thesis by simp
  next
    assume "\<exists>c'. ss1 = ss @ [readmeSection (name e) c'] \<and>
      \<not> list_ex (\<lambda>s. includes_str s (section_of (name e) c')) ss"
    then obtain c' where c': "ss1 = ss @ [readmeSection (name e) c']"
      "\<not> list_ex (\<lambda>s. includes_str s (section_of (name e) c')) ss"
      by blast
    with Cons.prems(2) have "section_of (name e) c' \<noteq> section_of d c"
      by auto
    then have "readmeSection (name e) c' \<noteq> readmeSection d c"
      by (simp add: readmeSection_eq_iff)
    with c'(1) Cons.prems(2,3) show ?thesis
      by auto
  qed
  with r show ?case
    by (intro Cons.IH [of ls1 ss1]) auto
qed

section \<open>A second run\<close>

lemma collect_second_run:
  assumes "readdirSync fs projectDir = Inr dirents"
    and "forEach (visit fs projectDir) dirents acc = Inr r"
  shows "\<exists>ls ss. collect (fs(readmeFilePath projectDir \<mapsto> File x)) projectDir t = Inr (ls, ss)
    \<and> forEach (visit fs projectDir) dirents (existingLinks t, existingSections t) = Inr (ls, ss)"
proof -
  from forEach_visit_Inr_any [OF assms(2)] obtain r' where
    "forEach (visit fs projectDir) dirents (existingLinks t, existingSections t) = Inr r'"
    by blast
  moreover have "visit (fs(readmeFilePath projectDir \<mapsto> File x)) projectDir = visit fs projectDir"
    by (intro ext) (rule visit_update_readme)
  ultimately show ?thesis
    using assms(1) by (cases r') (simp add: collect_def readdirSync_update_readme)
qed

lemma existingSections_after_template:
  assumes d: "d \<noteq> []" "0x23 \<notin> set d" "\<not> isSpace (hd d)" "\<not> isSpace (last d)"
    and post: "list_all (\<lambda>s. \<exists>n c. s = readmeSection n c) post"
  shows "section_of d (js ''Hello'') \<in> set (existingSections
    (y @ js ''\<newline>'' @ readmeSection d (js ''Hello'') @
      (if post = [] then [] else js ''\<newline>'' @ join (js ''\<newline>'') post)))"
proof -
  let ?b = "js ''Hello\<newline>'' @ replicate 20 0x20"
  let ?z = "if post = [] then [] else js ''\<newline>'' @ join (js ''\<newline>'') post"
  have w: "blank (js '' '')"
    by (simp add: blank_def js_def isSpace_def)
  have shape: "y @ js ''\<newline>'' @ readmeSection d (js ''Hello'') @ ?z =
      y @ js ''\<newline>\<newline>###'' @ (js '' '' @ d @ js ''\<newline>---\<newline>'' @ ?b @ ?z)"
    by (simp add: readmeSection_def js_def)
  have "\<exists>b q. ?b @ ?z = b @ q \<and> trim b = js ''Hello'' \<and>
      exec2 existingSectionsRegex (js ''###'' @ js '' '' @ d @ js ''\<newline>---\<newline>'' @ b @ q) =
        Some (d, b, q)"
  proof (cases post)
    case Nil
    have "exec2 existingSectionsRegex (js ''###'' @ js '' '' @ d @ js ''\<newline>---\<newline>'' @ ?b @ []) =
        Some (d, ?b, [])"
      using w d(1,2,3) by (rule exec_section_exact) (simp_all add: js_def replicate_20)
    with Nil show ?thesis
      by (intro exI [of _ ?b] exI [of _ "[]"]) (simp add: trim_Hello)
  next
    case (Cons s post')
    with post obtain n c where "s = readmeSection n c"
      by auto
    with Cons obtain q' where z: "?z = js ''\<newline>'' @ js ''\<newline>###'' @ q'"
      by (cases post') (auto simp: readmeSection_def js_def)
    have "exec2 existingSectionsRegex (js ''###'' @ js '' '' @ d @ js ''\<newline>---\<newline>'' @
        (?b @ js ''\<newline>'') @ js ''\<newline>###'' @ q') = Some (d, ?b @ js ''\<newline>'', js ''\<newline>###'' @ q')"
      using w d(1,2,3) by (rule exec_section_exact) (simp_all add: js_def replicate_20)
    with z show ?thesis
      by (intro exI [of _ "?b @ js ''\<newline>''"] exI [of _ "js ''\<newline>###'' @ q'"])
        (simp add: trim_Hello)
  qed
  then obtain b q where bq: "?b @ ?z = b @ q" "trim b = js ''Hello''"
    "exec2 existingSectionsRegex (js ''###'' @ js '' '' @ d @ js ''\<newline>---\<newline>'' @ b @ q) =
      Some (d, b, q)"
    by blast
  from existingSections_reaches [of y "js '' '' @ d @ js ''\<newline>---\<newline>'' @ b @ q"]
  obtain ss where "existingSections (y @ js ''\<newline>\<newline>###'' @ js '' '' @ d @ js ''\<newline>---\<newline>'' @ b @ q) =
      ss @ existingSections (js ''###'' @ js '' '' @ d @ js ''\<newline>---\<newline>'' @ b @ q)"
    by blast
  also have "existingSections (js ''###'' @ js '' '' @ d @ js ''\<newline>---\<newline>'' @ b @ q) =
      section_of (trim d) (trim b) # existingSections q"
    by (rule existingSections_match [OF bq(3)])
  finally have "section_of d (js ''Hello'') \<in> set (existingSections
      (y @ js ''\<newline>\<newline>###'' @ js '' '' @ d @ js ''\<newline>---\<newline>'' @ b @ q))"
    using trim_id [OF d(1,3,4)] bq(2) by simp
  moreover have "y @ js ''\<newline>'' @ readmeSection d (js ''Hello'') @ ?z =
      y @ js ''\<newline>\<newline>###'' @ js '' '' @ d @ js ''\<newline>---\<newline>'' @ b @ q"
    unfolding shape using bq(1) by simp
  ultimately show ?thesis
    by simp
qed

lemma link_includes_href: "includes_str (link n t) (js ''./'' @ n @ js ''/'')"
proof -
  have "link n t = js ''<a href=\"'' @ (js ''./'' @ n @ js ''/'') @
      (js ''\" style=\"font-weight: bold; margin-bottom:200px;\">'' @ [glyph] @ js '' '' @ t @ js ''</a></br>'')"
    by (simp add: link_def js_def)
  then show ?thesis
    using includes_str_middle by metis
qed

lemma tree_sub_readme:
  "readFileSync (tree t [(d, Some c)]) (path_join (path_join repo d) (js ''README.md'')) = Inr c"
  "existsSync (tree t [(d, Some c)]) (path_join (path_join repo d) (js ''README.md''))"
  by (simp_all add: readFileSync_def existsSync_def tree_def path_join_def repo_def js_def)

text \<open>
  Claim C4, as stated, fails for a directory name with leading white space.  In a project
  whose README is the placeholder and whose one subdirectory is named \<^verbatim>\<open>" a"\<close> (a space,
  then \<^verbatim>\<open>a\<close>) and holds a \<^verbatim>\<open>README.md\<close> with the content \<^verbatim>\<open>Hello\<close>, the first run appends the
  section fragment; the second run extracts it with a trimmed heading, does not find the
  untrimmed heading in it, and appends the fragment again.
\<close>

theorem section_duplicated_for_padded_name:
  "collect (tree placeholder [(js '' a'', Some (js ''Hello''))]) repo placeholder =
     Inr ([link (js '' a'') (js '' a'')], [readmeSection (js '' a'') (js ''Hello'')])
   \<and> run repo (tree placeholder [(js '' a'', Some (js ''Hello''))]) =
     Inr ((tree placeholder [(js '' a'', Some (js ''Hello''))])
       (readmeFilePath repo \<mapsto>
         File (placeholder @ js ''\<newline>'' @ link (js '' a'') (js '' a'') @ js ''\<newline>'' @
               readmeSection (js '' a'') (js ''Hello''))))
   \<and> collect
       ((tree placeholder [(js '' a'', Some (js ''Hello''))])
         (readmeFilePath repo \<mapsto>
           File (placeholder @ js ''\<newline>'' @ link (js '' a'') (js '' a'') @ js ''\<newline>'' @
                 readmeSection (js '' a'') (js ''Hello''))))
       repo
       (placeholder @ js ''\<newline>'' @ link (js '' a'') (js '' a'') @ js ''\<newline>'' @
        readmeSection (js '' a'') (js ''Hello'')) =
     Inr ([link (js '' a'') (js ''a'')],
          [section_of (js ''a'') (js ''Hello''), readmeSection (js '' a'') (js ''Hello'')])"
proof -
  let ?d = "js '' a''"
  let ?fs = "tree placeholder [(?d, Some (js ''Hello''))]"
  let ?T = "readmeSection ?d (js ''Hello'')"
  let ?out = "placeholder @ js ''\<newline>'' @ link ?d ?d @ js ''\<newline>'' @ ?T"
  have c1: "collect ?fs repo placeholder = Inr ([link ?d ?d], [?T])"
    by (simp add: eval_defs)
  have "updatedContent ([] @ placeholder @ []) [link ?d ?d] [?T] = ?out"
    by (subst updatedContent_placeholder) simp_all
  then have r: "run repo ?fs = Inr (?fs(readmeFilePath repo \<mapsto> File ?out))"
    using run_written(1) [OF tree_readme c1] by simp
  have b: "blank (js '' '')" "blank (js ''  '')"
    by (simp_all add: blank_def js_def isSpace_def)
  have g: "good_name ?d" "js ''a'' \<noteq> []" "0x3C \<notin> set (js ''a'')" "\<not> isSpace (hd (js ''a''))"
    by (simp_all add: good_name_def js_def isSpace_def)
  have la: "link ?d ?d = anchor (js '' '') ?d (js '' '') (js '' '') (js '' '') (js ''  '') (js ''a'')"
    by (simp add: link_def anchor_def js_def)
  have "existingLinks ((js ''\<newline>'' @ ?T) @ []) = existingLinks []"
    by (rule existingLinks_no_anchor) (simp_all add: readmeSection_def js_def replicate_20)
  then have "existingLinks (link ?d ?d @ js ''\<newline>'' @ ?T) = [link ?d (js ''a'')]"
    unfolding la using existingLinks_anchor [OF b(1) b(1) b(1) b(1) b(2) g, of "js ''\<newline>'' @ ?T"]
    by (simp add: existingLinks_Nil)
  moreover have "existingLinks ((placeholder @ js ''\<newline>'') @ link ?d ?d @ js ''\<newline>'' @ ?T) =
      existingLinks (link ?d ?d @ js ''\<newline>'' @ ?T)"
    by (rule existingLinks_no_anchor) (simp_all add: placeholder_def js_def)
  ultimately have l: "existingLinks ?out = [link ?d (js ''a'')]"
    by simp
  have "exec2 existingSectionsRegex (js ''###'' @ js ''  '' @ js ''a'' @ js ''\<newline>---\<newline>'' @
      (js ''Hello\<newline>'' @ replicate 20 0x20) @ []) =
      Some (js ''a'', js ''Hello\<newline>'' @ replicate 20 0x20, [])"
    using b(2) by (rule exec_section_exact) (simp_all add: js_def isSpace_def replicate_20)
  from existingSections_match [OF this]
  have "existingSections (js ''###'' @ js ''  '' @ js ''a'' @ js ''\<newline>---\<newline>'' @
      (js ''Hello\<newline>'' @ replicate 20 0x20) @ []) = [section_of (js ''a'') (js ''Hello'')]"
    by (simp add: trim_Hello existingSections_Nil) (simp add: trim_def js_def isSpace_def)
  moreover have "existingSections ((placeholder @ js ''\<newline>'' @ link ?d ?d @ js ''\<newline>\<newline>'') @
      js ''###'' @ js ''  '' @ js ''a'' @ js ''\<newline>---\<newline>'' @
      (js ''Hello\<newline>'' @ replicate 20 0x20) @ []) =
      existingSections (js ''###'' @ js ''  '' @ js ''a'' @ js ''\<newline>---\<newline>'' @
      (js ''Hello\<newline>'' @ replicate 20 0x20) @ [])"
    by (rule existingSections_no_hash) (simp add: placeholder_def link_def js_def glyph_def)
  moreover have "?out = (placeholder @ js ''\<newline>'' @ link ?d ?d @ js ''\<newline>\<newline>'') @
      js ''###'' @ js ''  '' @ js ''a'' @ js ''\<newline>---\<newline>'' @
      (js ''Hello\<newline>'' @ replicate 20 0x20) @ []"
    by (simp add: readmeSection_def js_def)
  ultimately have s: "existingSections ?out = [section_of (js ''a'') (js ''Hello'')]"
    by simp
  have n: "\<not> includes_str (section_of (js ''a'') (js ''Hello''))
      (js ''### '' @ ?d @ js ''\<newline>---\<newline>'' @ js ''Hello'')"
    by (simp add: section_of_def js_def)
  have t: "trim (js ''Hello'') = js ''Hello''"
    by (simp add: trim_def js_def isSpace_def)
  have v: "visit ?fs repo (Dirent ?d True) ([link ?d (js ''a'')], [section_of (js ''a'') (js ''Hello'')]) =
      Inr ([link ?d (js ''a'')], [section_of (js ''a'') (js ''Hello''), ?T])"
    using n by (simp add: visit_def Let_def tree_sub_readme link_includes_href t)
  have "collect (?fs(readmeFilePath repo \<mapsto> File ?out)) repo ?out =
      Inr ([link ?d (js ''a'')], [section_of (js ''a'') (js ''Hello''), ?T])"
    unfolding collect_def readdirSync_update_readme tree_readdir l s
    by (simp add: visit_update_readme visit_not_directory v)
  with c1 r show ?thesis
    by simp
qed

text \<open>
  Claim C4, amended.  Let \<open>dirName\<close> be the name of a subdirectory that is not empty,
  holds no \<^verbatim>\<open>#\<close> and neither starts nor ends with white space, and let its \<^verbatim>\<open>README.md\<close>
  have the trimmed content \<^verbatim>\<open>Hello\<close>.  Visiting the directory appends the fragment
  \<^verbatim>\<open>"\n### dirName\n---\nHello\n"\<close> followed by twenty spaces, unless a section collected
  before already contains \<^verbatim>\<open>"### dirName\n---\nHello"\<close>; so after a run some collected section
  contains that text.  When the run appended the fragment, a second run on its output
  returns, extracts the section \<^verbatim>\<open>"### dirName\n---\nHello"\<close> and does not append the fragment
  again.
\<close>

theorem section_appended_once:
  assumes "readFileSync fs (readmeFilePath projectDir) = Inr readmeContent"
    and "collect fs projectDir readmeContent = Inr (folderLinks, readmeSections)"
    and "Dirent dirName True \<in> set dirents" and "readdirSync fs projectDir = Inr dirents"
    and "readFileSync fs (path_join (path_join projectDir dirName) (js ''README.md'')) = Inr content"
    and "trim content = js ''Hello''"
    and "dirName \<noteq> []" and "0x23 \<notin> set dirName"
    and "\<not> isSpace (hd dirName)" and "\<not> isSpace (last dirName)"
  shows "(\<forall>ls ss. \<exists>ls'. visit fs projectDir (Dirent dirName True) (ls, ss) =
        Inr (ls', if list_ex (\<lambda>s. includes_str s (section_of dirName (js ''Hello''))) ss then ss
                  else ss @ [readmeSection dirName (js ''Hello'')]))
    \<and> list_ex (\<lambda>s. includes_str s (section_of dirName (js ''Hello''))) readmeSections
    \<and> (readmeSection dirName (js ''Hello'') \<in> set readmeSections \<longrightarrow>
        (\<exists>folderLinks' readmeSections'.
          run projectDir fs =
            Inr (fs(readmeFilePath projectDir \<mapsto>
              File (updatedContent readmeContent folderLinks readmeSections)))
          \<and> collect
              (fs(readmeFilePath projectDir \<mapsto>
                File (updatedContent readmeContent folderLinks readmeSections)))
              projectDir (updatedContent readmeContent folderLinks readmeSections) =
            Inr (folderLinks', readmeSections')
          \<and> section_of dirName (js ''Hello'') \<in> set readmeSections'
          \<and> readmeSection dirName (js ''Hello'') \<notin> set readmeSections'))"
proof (intro conjI allI impI)
  fix ls ss
  have "existsSync fs (path_join (path_join projectDir dirName) (js ''README.md''))"
    using assms(5) by (auto simp: existsSync_def readFileSync_def split: option.splits)
  then show "\<exists>ls'. visit fs projectDir (Dirent dirName True) (ls, ss) =
      Inr (ls', if list_ex (\<lambda>s. includes_str s (section_of dirName (js ''Hello''))) ss then ss
                else ss @ [readmeSection dirName (js ''Hello'')])"
    using assms(5,6) by (simp add: visit_def Let_def section_of_def)
next
  from assms(2,4) have f: "forEach (visit fs projectDir) dirents
      (existingLinks readmeContent, existingSections readmeContent) = Inr (folderLinks, readmeSections)"
    by (simp add: collect_def)
  from forEach_visit_covers [OF f assms(3,5)] assms(6)
  show "list_ex (\<lambda>s. includes_str s (section_of dirName (js ''Hello''))) readmeSections"
    by simp
next
  let ?T = "readmeSection dirName (js ''Hello'')"
  let ?out = "updatedContent readmeContent folderLinks readmeSections"
  let ?fs = "fs(readmeFilePath projectDir \<mapsto> File ?out)"
  assume T: "?T \<in> set readmeSections"
  from assms(2,4) have f: "forEach (visit fs projectDir) dirents
      (existingLinks readmeContent, existingSections readmeContent) = Inr (folderLinks, readmeSections)"
    by (simp add: collect_def)
  from forEach_visit_sections [OF f] obtain appended
    where a: "readmeSections = existingSections readmeContent @ appended"
      "list_all (\<lambda>s. \<exists>n c. s = readmeSection n c) appended"
    by blast
  from T a(1) have "?T \<in> set appended"
    using readmeSection_not_extracted [of dirName "js ''Hello''" readmeContent] by simp
  then obtain a1 a2 where app: "appended = a1 @ ?T # a2"
    by (auto simp: in_set_conv_decomp)
  with a(2) have a2: "list_all (\<lambda>s. \<exists>n c. s = readmeSection n c) a2"
    by simp
  define pre where "pre = existingSections readmeContent @ a1"
  define y where "y = slice0 readmeContent (insertPosition readmeContent) @ js ''\<newline>'' @
      join (js ''\<newline>'') folderLinks @ (if pre = [] then [] else js ''\<newline>'' @ join (js ''\<newline>'') pre)"
  have "readmeSections = pre @ ?T # a2"
    by (simp add: a(1) app pre_def)
  then have out: "?out = y @ js ''\<newline>'' @ ?T @
      (if a2 = [] then [] else js ''\<newline>'' @ join (js ''\<newline>'') a2)"
    by (simp add: updatedContent_def join_split y_def)
  have e: "section_of dirName (js ''Hello'') \<in> set (existingSections ?out)"
    unfolding out by (rule existingSections_after_template [OF assms(7-10) a2])
  from collect_second_run [OF assms(4) f, of ?out ?out] obtain ls2 ss2
    where c: "collect ?fs projectDir ?out = Inr (ls2, ss2)"
      and f2: "forEach (visit fs projectDir) dirents (existingLinks ?out, existingSections ?out) =
        Inr (ls2, ss2)"
    by blast
  from forEach_visit_sections [OF f2] e have "section_of dirName (js ''Hello'') \<in> set ss2"
    by auto
  moreover have "?T \<notin> set ss2"
  proof (rule forEach_visit_no_duplicate [OF f2])
    show "list_ex (\<lambda>s. includes_str s (section_of dirName (js ''Hello''))) (existingSections ?out)"
      using e includes_str_refl by (auto simp: list_ex_iff)
    show "?T \<notin> set (existingSections ?out)"
      by (rule readmeSection_not_extracted)
  qed
  moreover have "run projectDir fs = Inr ?fs"
    by (rule run_written(1) [OF assms(1,2)])
  ultimately show "\<exists>folderLinks' readmeSections'.
      run projectDir fs = Inr ?fs \<and> collect ?fs projectDir ?out = Inr (folderLinks', readmeSections') \<and>
      section_of dirName (js ''Hello'') \<in> set readmeSections' \<and> ?T \<notin> set readmeSections'"
    using c by blast
qed

theorem section_appended_once_witness:
  "trim (js ''Hello\<newline>'') = js ''Hello''
   \<and> collect (tree placeholder [(js ''notes'', Some (js ''Hello\<newline>''))]) repo placeholder =
       Inr ([link (js ''notes'') (js ''notes'')], [readmeSection (js ''notes'') (js ''Hello'')])
   \<and> list_ex (\<lambda>s. includes_str s (section_of (js ''notes'') (js ''Hello'')))
       [readmeSection (js ''notes'') (js ''Hello'')]
   \<and> (\<exists>folderLinks' readmeSections'.
        run repo (tree placeholder [(js ''notes'', Some (js ''Hello\<newline>''))]) =
          Inr ((tree placeholder [(js ''notes'', Some (js ''Hello\<newline>''))])
            (readmeFilePath repo \<mapsto>
              File (updatedContent placeholder [link (js ''notes'') (js ''notes'')]
                [readmeSection (js ''notes'') (js ''Hello'')])))
        \<and> collect
            ((tree placeholder [(js ''notes'', Some (js ''Hello\<newline>''))])
              (readmeFilePath repo \<mapsto>
                File (updatedContent placeholder [link (js ''notes'') (js ''notes'')]
                  [readmeSection (js ''notes'') (js ''Hello'')])))
            repo
            (updatedContent placeholder [link (js ''notes'') (js ''notes'')]
              [readmeSection (js ''notes'') (js ''Hello'')]) =
          Inr (folderLinks', readmeSections')
        \<and> section_of (js ''notes'') (js ''Hello'') \<in> set readmeSections'
        \<and> readmeSection (js ''notes'') (js ''Hello'') \<notin> set readmeSections')"
proof -
  let ?fs = "tree placeholder [(js ''notes'', Some (js ''Hello\<newline>''))]"
  have 2: "collect ?fs repo placeholder =
      Inr ([link (js ''notes'') (js ''notes'')], [readmeSection (js ''notes'') (js ''Hello'')])"
    by (simp add: eval_defs)
  have 3: "Dirent (js ''notes'') True \<in>
      set (Dirent (js ''README.md'') False # map (\<lambda>(d, c). Dirent d True) [(js ''notes'', Some (js ''Hello\<newline>''))])"
    by simp
  have 6: "trim (js ''Hello\<newline>'') = js ''Hello''"
    by (simp add: trim_def js_def isSpace_def)
  have 7: "js ''notes'' \<noteq> []" "0x23 \<notin> set (js ''notes'')" "\<not> isSpace (hd (js ''notes''))"
    "\<not> isSpace (last (js ''notes''))"
    by (simp_all add: js_def isSpace_def)
  have 8: "readmeSection (js ''notes'') (js ''Hello'') \<in> set [readmeSection (js ''notes'') (js ''Hello'')]"
    by simp
  from section_appended_once [OF tree_readme 2 3 tree_readdir tree_sub_readme(1) 6 7] 2 6 8
  show ?thesis
    by blast
qed

section \<open>The collected links\<close>






lemma existingLinks_none: "\<not> includes_str s (js ''<a'') \<Longrightarrow> existingLinks s = []"
proof (induction s)
  case Nil
  then show ?case by (simp add: existingLinks_Nil)
next
  case (Cons c s)
  then have "\<not> prefix (js ''<a'') (c # s)" and "\<not> includes_str s (js ''<a'')"
    by auto
  with Cons.IH show ?case
    by (simp add: existingLinks_skip exec_link_no_anchor)
qed







section \<open>The output of a run, read again\<close>

lemma existingSections_none: "\<not> includes_str s (js ''###'') \<Longrightarrow> existingSections s = []"
proof (induction s)
  case Nil
  then show ?case by (simp add: existingSections_Nil)
next
  case (Cons c s)
  then have "\<not> prefix (js ''###'') (c # s)" and "\<not> includes_str s (js ''###'')"
    by auto
  with Cons.IH show ?case
    by (simp add: existingSections_skip exec_section_no_hash)
qed




lemma search_first:
  assumes "\<not> includes_str (p @ butlast sub) sub" and "sub \<noteq> []"
  shows "search (p @ sub @ q) sub = Some (length p)"
  using assms(1)
proof (induction p)
  case Nil
  with assms(2) show ?case
    by (cases sub) auto
next
  case (Cons c p)
  have "\<not> prefix sub (c # p @ sub @ q)"
  proof
    assume "prefix sub (c # p @ sub @ q)"
    moreover have "prefix ((c # p) @ butlast sub) (c # p @ sub @ q)"
      using assms(2) by (simp add: prefix_def) (metis append_butlast_last_id append_assoc)
    moreover have "length sub \<le> length ((c # p) @ butlast sub)"
      by simp
    ultimately have "prefix sub ((c # p) @ butlast sub)"
      by (metis prefix_length_prefix)
    with Cons.prems show False
      by (simp add: includes_str_sublist)
  qed
  moreover have "\<not> includes_str (p @ butlast sub) sub"
    using Cons.prems by auto
  ultimately show ?case
    using Cons.IH by simp
qed

lemma slice0_first:
  assumes "\<not> includes_str (before @ butlast placeholder) placeholder"
  shows "slice0 (before @ placeholder @ q) (insertPosition (before @ placeholder @ q)) =
    before @ placeholder"
proof -
  have "placeholder \<noteq> []"
    using placeholder_length by auto
  with assms have "search (before @ placeholder @ q) placeholder = Some (length before)"
    by (rule search_first)
  from slice0_insertPosition [OF this] show ?thesis
    by simp
qed


section \<open>White space around a text\<close>

lemma isSpace_simps [simp]: "\<not> isSpace 0x23" "\<not> isSpace 0x2D" "isSpace 0x0A" "isSpace 0x20"
  by (simp_all add: isSpace_def)

lemma trim_padded:
  assumes "list_all isSpace l" and "list_all isSpace r"
    and "t = [] \<or> \<not> isSpace (hd t) \<and> \<not> isSpace (last t)"
  shows "trim (l @ t @ r) = t"
proof (cases "t = []")
  case True
  with assms(1,2) have "\<forall>c\<in>set (l @ t @ r). isSpace c"
    by (auto simp: list_all_iff)
  then have d: "dropWhile isSpace (l @ t @ r) = []"
    unfolding dropWhile_eq_Nil_conv .
  have "trim (l @ t @ r) = []"
    unfolding trim_def d by simp
  with True show ?thesis
    by simp
next
  case False
  with assms(3) have t: "\<not> isSpace (hd t)" "\<not> isSpace (last t)"
    by auto
  have "dropWhile isSpace (l @ t @ r) = dropWhile isSpace (t @ r)"
    using assms(1) by (intro dropWhile_append2) (simp add: list_all_iff)
  also have "\<dots> = t @ r"
    using False t(1) by (cases t) auto
  finally have 1: "dropWhile isSpace (l @ t @ r) = t @ r" .
  have "dropWhile isSpace (rev r @ rev t) = dropWhile isSpace (rev t)"
    using assms(2) by (intro dropWhile_append2) (simp add: list_all_iff)
  also have "\<dots> = rev t"
    using False t(2) by (cases t rule: rev_cases) auto
  finally show ?thesis
    by (simp add: trim_def 1)
qed

text \<open>
  An occurrence of a text that starts with a line break and goes on with something that is
  not white space, in a text that starts with white space.
\<close>

lemma sublist_after_spaces:
  assumes "list_all isSpace u" and "sublist (0x0A # x) (u @ s)" and "x \<noteq> []" and "\<not> isSpace (hd x)"
  shows "sublist (0x0A # x) (0x0A # s)"
  using assms(1,2)
proof (induction u)
  case Nil
  then show ?case
    by (simp add: sublist_Cons_right)
next
  case (Cons c u)
  from Cons.prems(2) have "prefix (0x0A # x) (c # u @ s) \<or> sublist (0x0A # x) (u @ s)"
    by (simp add: sublist_Cons_right)
  then show ?case
  proof
    assume p: "prefix (0x0A # x) (c # u @ s)"
    then have c: "c = 0x0A" and px: "prefix x (u @ s)"
      by auto
    have "u = []"
    proof (cases u)
      case (Cons d u')
      with px assms(3) have "hd x = d"
        by (cases x) auto
      with Cons Cons.prems(1) assms(4) show ?thesis
        by simp
    qed simp
    with px have "prefix (0x0A # x) (0x0A # s)"
      by simp
    then show ?thesis
      by (simp add: sublist_Cons_right)
  next
    assume "sublist (0x0A # x) (u @ s)"
    with Cons show ?thesis
      by simp
  qed
qed

lemma sublist_before_spaces:
  assumes "list_all isSpace v" and "sublist (y @ [0x0A]) (s @ v)" and "y \<noteq> []" and "\<not> isSpace (last y)"
  shows "sublist (y @ [0x0A]) (s @ [0x0A])"
proof -
  have "sublist (0x0A # rev y) (rev v @ rev s)"
    using assms(2) sublist_rev [of "y @ [0x0A]" "s @ v"] by simp
  moreover have "list_all isSpace (rev v)"
    using assms(1) by (simp add: list_all_iff)
  moreover have "rev y \<noteq> []" "\<not> isSpace (hd (rev y))"
    using assms(3,4) by (simp_all add: hd_rev)
  ultimately have "sublist (0x0A # rev y) (0x0A # rev s)"
    by (intro sublist_after_spaces)
  then show ?thesis
    using sublist_rev [of "y @ [0x0A]" "s @ [0x0A]"] by simp
qed

text \<open>An occurrence that cannot reach into what follows.\<close>

lemma prefix_append_free_tl:
  assumes "prefix l (a @ q)" and "a \<noteq> []" and "q = [] \<or> hd q \<notin> set (tl l)"
  shows "prefix l a"
proof (rule ccontr)
  assume n: "\<not> prefix l a"
  with assms(1) obtain us where us: "l = a @ us" "prefix us q"
    by (auto simp: prefix_append)
  with n obtain u us' where u: "us = u # us'"
    by (cases us) auto
  with us have "hd q = u" and "q \<noteq> []"
    by (auto simp: prefix_def)
  moreover from us(1) u assms(2) have "u \<in> set (tl l)"
    by (cases a) auto
  ultimately show False
    using assms(3) by auto
qed

lemma sublist_append_free:
  assumes "sublist x (s @ v)" and "\<not> sublist x v" and "v = [] \<or> hd v \<notin> set (tl x)"
  shows "sublist x s"
  using assms(1)
proof (induction s)
  case Nil
  with assms(2) show ?case by simp
next
  case (Cons c s)
  from Cons.prems have "prefix x (c # s @ v) \<or> sublist x (s @ v)"
    by (simp add: sublist_Cons_right)
  then show ?case
  proof
    assume "prefix x (c # s @ v)"
    then have "prefix x ((c # s) @ v)"
      by simp
    then have "prefix x (c # s)"
      by (rule prefix_append_free_tl [OF _ _ assms(3)]) simp
    then show ?thesis
      by (simp add: sublist_Cons_right)
  next
    assume "sublist x (s @ v)"
    with Cons.IH show ?thesis
      by (simp add: sublist_Cons_right)
  qed
qed

section \<open>A block at the start of the text\<close>

lemma exec_section_general:
  assumes w: "blank w" and h: "h \<noteq> []" "0x23 \<notin> set h" "\<not> isSpace (hd h)"
    and q: "q = [] \<or> prefix (js ''\<newline>###'') q"
    and body: "\<And>i. i < length b \<Longrightarrow> \<not> prefix (js ''\<newline>###'') (drop i b @ q)"
    and nosep: "\<not> includes_str (js ''---\<newline>'' @ takeWhile (\<lambda>c. c \<noteq> 0x23) (b @ q))
      (js ''\<newline>---\<newline>'')"
  shows "exec2 existingSectionsRegex (js ''###'' @ w @ h @ js ''\<newline>---\<newline>'' @ b @ q) =
    Some (h, b, q)"
proof -
  let ?sep = "js ''\<newline>---\<newline>''"
  let ?look = "[Lookahead_Or_End (js ''\<newline>###'')]"
  let ?r4 = "Group_Lazy_Star (\<lambda>c. True) # ?look"
  let ?r3 = "Lit ?sep # ?r4"
  let ?P = "\<lambda>c. c \<noteq> (0x23 :: jschar)"
  have "match_rx ?look q = Some ([], q)"
    using q by auto
  moreover have "match_rx ?look (drop i b @ q) = None" if "i < length b" for i
    using body [OF that] that by simp
  ultimately have "match_rx ?r4 (b @ q) = Some ([b], q)"
    by (rule match_Lazy_run)
  then have m3: "match_rx ?r3 (?sep @ b @ q) = Some ([b], q)"
    unfolding match_Lit_append .
  define x where "x = ?sep @ takeWhile ?P (b @ q)"
  define r where "r = dropWhile ?P (b @ q)"
  have "takeWhile ?P (h @ (?sep @ b @ q)) = h @ takeWhile ?P (?sep @ b @ q)"
    using h(2) by (intro takeWhile_append2) auto
  moreover have "takeWhile ?P (?sep @ (b @ q)) = ?sep @ takeWhile ?P (b @ q)"
    by (intro takeWhile_append2) (auto simp: js_def)
  ultimately have run: "takeWhile ?P (h @ ?sep @ b @ q) = h @ x"
    by (simp add: x_def)
  have split: "?sep @ b @ q = x @ r"
    by (simp add: x_def r_def)
  have tlx: "tl x = js ''---\<newline>'' @ takeWhile ?P (b @ q)"
    by (simp add: x_def js_def)
  have "r = [] \<or> hd r = 0x23"
    unfolding r_def using hd_dropWhile [of ?P "b @ q"] by blast
  then have r: "r = [] \<or> hd r \<notin> set ?sep"
    by (auto simp: js_def)
  have none: "match_rx ?r3 (drop i x @ r) = None" if "0 < i" "i \<le> length x" for i
    using no_later_occurrence [of x ?sep r i] nosep r that by (simp add: tlx)
  have "match_rx (Group_Plus ?P # ?r3) (h @ ?sep @ b @ q) = Some ([h, b], q)"
    using h(1) run split m3 none by (rule greedy_group_exact)
  then have "match_rx (Plus isSpace # Group_Plus ?P # ?r3) (w @ h @ ?sep @ b @ q) =
      Some ([h, b], q)"
    using w h(1,3) by (intro match_Plus_run) (auto simp: blank_def list_all_iff)
  then have "match_rx existingSectionsRegex (js ''###'' @ w @ h @ ?sep @ b @ q) = Some ([h, b], q)"
    unfolding existingSectionsRegex_def match_Lit_append .
  then show ?thesis
    by (simp add: exec2_def)
qed

lemma prefix_append_take:
  assumes "prefix x (d @ q)" and "d \<noteq> []"
  shows "prefix x (d @ take (length x - 1) q)"
proof -
  from assms(1) consider "prefix x d" | us where "x = d @ us" "prefix us q"
    by (auto simp: prefix_append)
  then show ?thesis
  proof cases
    case 1
    then show ?thesis
      by (simp add: prefix_append)
  next
    case 2
    from 2(2) have "us = take (length us) q"
      by (metis append_eq_conv_conj prefix_def)
    moreover have "length us \<le> length x - 1"
      using 2(1) assms(2) by (cases d) auto
    ultimately have "prefix us (take (length x - 1) q)"
      by (metis take_is_prefix min.absorb1 take_take)
    with 2(1) show ?thesis
      by simp
  qed
qed

lemma takeWhile_body:
  assumes "list_all isSpace bw" and "list_all isSpace bw'" and "q = [] \<or> prefix (js ''\<newline>###'') q"
  shows "\<exists>W. list_all isSpace W \<and>
    takeWhile (\<lambda>c. c \<noteq> 0x23) (bw @ b @ bw' @ q) = bw @ takeWhile (\<lambda>c. c \<noteq> 0x23) b @ W"
proof -
  let ?P = "\<lambda>c. c \<noteq> (0x23 :: jschar)"
  have P: "?P c" if "isSpace c" for c
    using that by auto
  have 1: "takeWhile ?P (bw @ b @ bw' @ q) = bw @ takeWhile ?P (b @ bw' @ q)"
    using assms(1) P by (intro takeWhile_append2) (auto simp: list_all_iff)
  show ?thesis
  proof (cases "\<forall>c\<in>set b. ?P c")
    case True
    then have 2: "takeWhile ?P (b @ bw' @ q) = b @ takeWhile ?P (bw' @ q)"
      by (intro takeWhile_append2) auto
    have 3: "takeWhile ?P (bw' @ q) = bw' @ takeWhile ?P q"
      using assms(2) P by (intro takeWhile_append2) (auto simp: list_all_iff)
    have "takeWhile ?P q = [] \<or> takeWhile ?P q = [0x0A]"
      using assms(3) by (auto simp: prefix_def js_def)
    then have W: "list_all isSpace (bw' @ takeWhile ?P q)"
      using assms(2) by auto
    from True have tb: "takeWhile ?P b = b"
      by (simp add: takeWhile_eq_all_conv)
    have "takeWhile ?P (bw @ b @ bw' @ q) = bw @ takeWhile ?P b @ (bw' @ takeWhile ?P q)"
      unfolding 1 2 3 tb ..
    with W show ?thesis
      by blast
  next
    case False
    then obtain c where "c \<in> set b" "\<not> ?P c"
      by blast
    then have "takeWhile ?P (b @ bw' @ q) = takeWhile ?P b"
      by (rule takeWhile_append1)
    with 1 have "takeWhile ?P (bw @ b @ bw' @ q) = bw @ takeWhile ?P b @ []"
      by simp
    then show ?thesis
      by (intro exI [of _ "[]"]) simp
  qed
qed

lemma block_no_separator:
  assumes "list_all isSpace bw" and "list_all isSpace W"
    and f: "\<not> includes_str (js ''\<newline>'' @ tb @ js ''\<newline>'') (js ''\<newline>---\<newline>'')"
  shows "\<not> includes_str (js ''---\<newline>'' @ bw @ tb @ W) (js ''\<newline>---\<newline>'')"
proof
  let ?x = "0x0A # js ''---\<newline>''"
  assume "includes_str (js ''---\<newline>'' @ bw @ tb @ W) (js ''\<newline>---\<newline>'')"
  then have "sublist ?x (js ''---'' @ (0x0A # bw) @ tb @ W)"
    by (simp add: includes_str_sublist js_def)
  then have s: "sublist ?x ((0x0A # bw) @ tb @ W)"
    by (simp add: js_def sublist_Cons_right)
  have "list_all isSpace (0x0A # bw)"
    using assms(1) by simp
  from this s have "sublist ?x (0x0A # tb @ W)"
    by (rule sublist_after_spaces) (simp_all add: js_def)
  then have "sublist (js ''\<newline>---'' @ [0x0A]) ((0x0A # tb) @ W)"
    by (simp add: js_def)
  with assms(2) have "sublist (js ''\<newline>---'' @ [0x0A]) ((0x0A # tb) @ [0x0A])"
    by (rule sublist_before_spaces) (simp_all add: js_def)
  with f show False
    by (simp add: includes_str_sublist js_def)
qed

lemma block_body_ends:
  assumes "list_all isSpace bw" and "list_all isSpace bw'"
    and q: "q = [] \<or> prefix (js ''\<newline>###'') q"
    and e: "\<not> includes_str (js ''\<newline>'' @ b) (js ''\<newline>###'')"
    and i: "i < length (bw @ b @ bw')"
  shows "\<not> prefix (js ''\<newline>###'') (drop i (bw @ b @ bw') @ q)"
proof
  let ?x = "0x0A # js ''###''"
  define B where "B = bw @ b @ bw'"
  define tq where "tq = take 3 q"
  have tq: "tq = [] \<or> tq = js ''\<newline>##''"
    using q by (auto simp: tq_def prefix_def js_def)
  assume "prefix (js ''\<newline>###'') (drop i (bw @ b @ bw') @ q)"
  then have "prefix (js ''\<newline>###'') (drop i B @ q)"
    by (simp only: B_def)
  moreover have "drop i B \<noteq> []"
    using i unfolding B_def [symmetric] by simp
  ultimately have "prefix (js ''\<newline>###'') (drop i B @ take (length (js ''\<newline>###'') - 1) q)"
    by (rule prefix_append_take)
  then have "prefix ?x (drop i B @ tq)"
    by (simp add: js_def tq_def numeral_3_eq_3)
  then have "sublist ?x (drop i B @ tq)"
    by (rule prefix_imp_sublist)
  then have "sublist ?x (take i B @ drop i B @ tq)"
    by (simp add: sublist_append)
  then have "sublist ?x (B @ tq)"
    by (metis append.assoc append_take_drop_id)
  then have "sublist ?x (bw @ b @ bw' @ tq)"
    by (simp add: B_def)
  with assms(1) have "sublist ?x (0x0A # b @ bw' @ tq)"
    by (rule sublist_after_spaces) (simp_all add: js_def)
  then have s: "sublist ?x ((0x0A # b) @ bw' @ tq)"
    by simp
  have nv: "\<not> sublist ?x (bw' @ tq)"
  proof
    assume "sublist ?x (bw' @ tq)"
    with assms(2) have "sublist ?x (0x0A # tq)"
      by (rule sublist_after_spaces) (simp_all add: js_def)
    with tq show False
      by (auto simp: js_def sublist_Cons_right)
  qed
  have hv: "bw' @ tq = [] \<or> hd (bw' @ tq) \<notin> set (tl ?x)"
  proof (cases bw')
    case Nil
    with tq show ?thesis
      by (auto simp: js_def)
  next
    case (Cons c r)
    with assms(2) have "isSpace c"
      by simp
    then have "c \<noteq> 0x23"
      by auto
    with Cons show ?thesis
      by (simp add: js_def)
  qed
  from s nv hv have "sublist ?x (0x0A # b)"
    by (rule sublist_append_free)
  with e show False
    by (simp add: includes_str_sublist js_def)
qed

lemma exec_block:
  assumes "block_ok (Block w h hw bw b bw')" and q: "q = [] \<or> prefix (js ''\<newline>###'') q"
  shows "exec2 existingSectionsRegex (block_text (Block w h hw bw b bw') @ q) =
    Some (h @ hw, bw @ b @ bw', q)"
proof -
  from assms(1) have w: "blank w" and sp: "list_all isSpace hw" "list_all isSpace bw" "list_all isSpace bw'"
    and h: "h \<noteq> []" "0x23 \<notin> set h" "\<not> isSpace (hd h)"
    and e: "\<not> includes_str (js ''\<newline>'' @ b) (js ''\<newline>###'')"
    and f: "\<not> includes_str (js ''\<newline>'' @ takeWhile (\<lambda>c. c \<noteq> 0x23) b @ js ''\<newline>'')
      (js ''\<newline>---\<newline>'')"
    by simp_all
  have h1: "h @ hw \<noteq> []" "\<not> isSpace (hd (h @ hw))"
    using h by simp_all
  have h2: "0x23 \<notin> set (h @ hw)"
    using h(2) sp(1) by (auto simp: list_all_iff)
  from takeWhile_body [OF sp(2,3) q, of b] obtain W where W: "list_all isSpace W"
    "takeWhile (\<lambda>c. c \<noteq> 0x23) (bw @ b @ bw' @ q) = bw @ takeWhile (\<lambda>c. c \<noteq> 0x23) b @ W"
    by blast
  have nosep: "\<not> includes_str (js ''---\<newline>'' @ takeWhile (\<lambda>c. c \<noteq> 0x23) ((bw @ b @ bw') @ q))
      (js ''\<newline>---\<newline>'')"
    using block_no_separator [OF sp(2) W(1) f] by (simp add: W(2))
  have "exec2 existingSectionsRegex
      (js ''###'' @ w @ (h @ hw) @ js ''\<newline>---\<newline>'' @ (bw @ b @ bw') @ q) =
    Some (h @ hw, bw @ b @ bw', q)"
    using w h1(1) h2 h1(2) q block_body_ends [OF sp(2,3) q e] nosep
    by (rule exec_section_general)
  then show ?thesis
    by simp
qed

lemma existingSections_block:
  assumes "block_ok B" and "q = [] \<or> prefix (js ''\<newline>###'') q"
  shows "existingSections (block_text B @ q) = block_section B # existingSections q"
proof -
  obtain w h hw bw b bw' where B: "B = Block w h hw bw b bw'"
    by (cases B)
  from assms(1) have sp: "list_all isSpace hw" "list_all isSpace bw" "list_all isSpace bw'"
    and h: "h \<noteq> []" "\<not> isSpace (hd h)" "\<not> isSpace (last h)"
    and b: "b = [] \<or> \<not> isSpace (hd b) \<and> \<not> isSpace (last b)"
    by (simp_all add: B)
  have "trim ([] @ h @ hw) = h"
    using h sp(1) by (intro trim_padded) simp_all
  moreover have "trim (bw @ b @ bw') = b"
    using sp(2,3) b by (rule trim_padded)
  ultimately show ?thesis
    using existingSections_match [OF exec_block [OF assms(1) [unfolded B] assms(2)]]
    by (simp add: B section_of_def)
qed

lemma blocks_text_starts:
  assumes "list_all block_ok (B # Bs)"
  shows "\<exists>c s. blocks_text (B # Bs) = js ''###'' @ c # s \<and> isSpace c"
proof -
  obtain w h hw bw b bw' where B: "B = Block w h hw bw b bw'"
    by (cases B)
  with assms obtain c w' where "w = c # w'" "isSpace c"
    by (cases w) (auto simp: blank_def)
  then show ?thesis
    by (cases Bs) (auto simp: B)
qed

lemma existingSections_blocks:
  assumes "list_all block_ok Bs"
  shows "existingSections (blocks_text Bs) = map block_section Bs"
  using assms
proof (induction Bs rule: blocks_text.induct)
  case 1
  then show ?case
    by (simp add: existingSections_Nil)
next
  case (2 B)
  then show ?case
    using existingSections_block [of B "[]"] by (simp add: existingSections_Nil)
next
  case (3 B C Bs)
  from "3.prems" have ok: "block_ok B" "list_all block_ok (C # Bs)"
    by simp_all
  from blocks_text_starts [OF ok(2)] obtain c s
    where s: "blocks_text (C # Bs) = js ''###'' @ c # s"
    by blast
  then have "prefix (js ''\<newline>###'') (js ''\<newline>'' @ blocks_text (C # Bs))"
    by (simp add: js_def)
  then have "existingSections (block_text B @ js ''\<newline>'' @ blocks_text (C # Bs)) =
      block_section B # existingSections (js ''\<newline>'' @ blocks_text (C # Bs))"
    using ok(1) by (intro existingSections_block) simp_all
  also have "existingSections (js ''\<newline>'' @ blocks_text (C # Bs)) =
      existingSections (blocks_text (C # Bs))"
    by (simp add: js_def existingSections_skip_char)
  finally show ?case
    using "3.IH" [OF ok(2)] by simp
qed

lemma exec_section_no_space:
  assumes "prefix (js ''###'') s" and "drop 3 s = [] \<or> \<not> isSpace (hd (drop 3 s))"
  shows "exec2 existingSectionsRegex s = None"
proof -
  from assms(1) obtain r where s: "s = js ''###'' @ r"
    by (auto simp: prefix_def)
  with assms(2) have "takeWhile isSpace r = []"
    by (cases r) (auto simp: js_def)
  then show ?thesis
    unfolding s exec2_def existingSectionsRegex_def match_Lit_append by simp
qed

lemma existingSections_before_block:
  assumes "\<not> includes_str p (js ''###'')"
  shows "existingSections (p @ js ''###'' @ s) = existingSections (js ''###'' @ s)"
  using assms
proof (induction p)
  case Nil
  then show ?case by simp
next
  case (Cons a p)
  have n: "\<not> prefix (js ''###'') (a # p)" and p: "\<not> includes_str p (js ''###'')"
    using Cons.prems by auto
  have "exec2 existingSectionsRegex (a # p @ js ''###'' @ s) = None"
  proof (cases "prefix (js ''###'') (a # p @ js ''###'' @ s)")
    case False
    then show ?thesis
      by (rule exec_section_no_hash)
  next
    case True
    have "length (a # p) < 3"
    proof (rule ccontr)
      assume "\<not> length (a # p) < 3"
      then have "length (js ''###'') \<le> length (a # p)"
        by (simp add: js_def)
      with True have "prefix (js ''###'') (a # p)"
        by (metis append_Cons prefix_length_prefix prefixI)
      with n show False ..
    qed
    then consider "p = []" | b where "p = [b]"
      by (cases p; cases "tl p") auto
    then have "hd (drop 3 (a # p @ js ''###'' @ s)) = 0x23"
      by cases (simp_all add: js_def)
    then have "\<not> isSpace (hd (drop 3 (a # p @ js ''###'' @ s)))"
      by simp
    with True show ?thesis
      by (intro exec_section_no_space) simp_all
  qed
  then have "existingSections ((a # p) @ js ''###'' @ s) = existingSections (p @ js ''###'' @ s)"
    by (simp add: existingSections_skip)
  with Cons.IH [OF p] show ?case
    by simp
qed

lemma existingSections_prefix_blocks:
  assumes "\<not> includes_str p (js ''###'')" and "list_all block_ok Bs"
  shows "existingSections (p @ blocks_text Bs) = map block_section Bs"
proof (cases Bs)
  case Nil
  with assms(1) show ?thesis
    by (simp add: existingSections_none)
next
  case (Cons B Bs')
  from blocks_text_starts [OF assms(2) [unfolded Cons]] obtain c s
    where s: "blocks_text Bs = js ''###'' @ c # s"
    unfolding Cons by blast
  have "existingSections (p @ js ''###'' @ c # s) = existingSections (js ''###'' @ c # s)"
    using assms(1) by (rule existingSections_before_block)
  then show ?thesis
    using existingSections_blocks [OF assms(2)] by (simp add: s)
qed

lemma join_newline: "join (js ''\<newline>'') xs = tl (concat (map ((#) 0x0A) xs))"
  by (induction "js ''\<newline>''" xs rule: join.induct) (simp_all add: js_def)

lemma updatedContent_first:
  assumes "\<not> includes_str (before @ butlast placeholder) placeholder"
  shows "updatedContent (before @ placeholder @ after) ls ss =
    before @ placeholder @ [0x0A] @ tl (concat (map ((#) 0x0A) ls)) @ [0x0A] @
    tl (concat (map ((#) 0x0A) ss))"
  using slice0_first [OF assms, of after]
  by (simp add: updatedContent_def join_newline [symmetric]) (simp add: js_def)

section \<open>The sections of a README made of blocks\<close>

text \<open>
  Claim C9, as stated, fails: not every block of the form heading line, separator line, body
  is extracted.  The heading group \<^verbatim>\<open>([^#]+)\<close> cannot cross a \<^verbatim>\<open>#\<close>, so the block with the heading
  \<^verbatim>\<open>C# notes\<close> that stands before the placeholder is matched at no position: no section is
  extracted, and the text written is the input followed by two line breaks, with no section
  after the placeholder.
\<close>

theorem heading_with_hash_is_not_extracted:
  "existingSections (js ''### C# notes\<newline>---\<newline>body\<newline><!-- FOLDER LINKS -->'') = []
   \<and> written (readmeFilePath repo)
       (run repo (tree (js ''### C# notes\<newline>---\<newline>body\<newline><!-- FOLDER LINKS -->'') [])) =
     Some (js ''### C# notes\<newline>---\<newline>body\<newline><!-- FOLDER LINKS -->\<newline>\<newline>'')"
proof -
  let ?p = "js ''### C# notes\<newline>---\<newline>body\<newline>''"
  let ?t = "js ''### C# notes\<newline>---\<newline>body\<newline><!-- FOLDER LINKS -->''"
  have t: "?t = ?p @ placeholder @ []"
    by (simp add: placeholder_def js_def)
  have "exec2 existingSectionsRegex (js ''### C# notes\<newline>---\<newline>body\<newline><!-- FOLDER LINKS -->'') = None"
    by (simp add: exec2_def existingSectionsRegex_def js_def isSpace_def capture_def)
  then have "existingSections ?t = existingSections (js ''## C# notes\<newline>---\<newline>body\<newline><!-- FOLDER LINKS -->'')"
    using existingSections_skip [of "0x23" "js ''## C# notes\<newline>---\<newline>body\<newline><!-- FOLDER LINKS -->''"]
    by (simp add: js_def)
  also have "\<dots> = []"
    by (rule existingSections_none) (simp add: js_def)
  finally have s: "existingSections ?t = []" .
  have l: "existingLinks ?t = []"
    by (rule existingLinks_none) (simp add: js_def)
  have c: "collect (tree ?t []) repo ?t = Inr ([], [])"
    by (simp add: collect_tree_Nil s l)
  have "updatedContent (?p @ placeholder @ []) [] [] = ?p @ placeholder @ js ''\<newline>\<newline>''"
    by (subst updatedContent_placeholder) (simp_all add: js_def)
  then have "updatedContent ?t [] [] =
      js ''### C# notes\<newline>---\<newline>body\<newline><!-- FOLDER LINKS -->\<newline>\<newline>''"
    unfolding t [symmetric] by (simp add: placeholder_def js_def)
  with run_written(2) [OF tree_readme c] s show ?thesis
    by simp
qed

text \<open>
  Claim C9, amended.  The section pattern is run over the whole README, not over the part
  after the placeholder.  Let the README be a text without \<^verbatim>\<open>###\<close> followed by blocks, each
  starting on a new line: the heading mark, white space, a heading without \<^verbatim>\<open>#\<close>, white space,
  the separator line, and a body with white space around it, where no line of the body
  starts with \<^verbatim>\<open>###\<close> and no line of the body before its first \<^verbatim>\<open>#\<close> is a separator line.
  Wherever the placeholder stands, before the blocks, inside one of them or after them, the
  sections extracted are these blocks, in their order, each as the mark, one space, the
  heading without the white space after it, the separator line and the body without the
  white space around it; and they are written after the placeholder, at the head of the
  section list of the output.
\<close>

theorem sections_anywhere_are_extracted:
  assumes "readFileSync fs readmePath = Inr readmeContent"
    and "readmeContent = before @ placeholder @ after"
    and "\<not> includes_str (before @ butlast placeholder) placeholder"
    and "collect fs projectDir readmeContent = Inr (folderLinks, readmeSections)"
    and "readmeContent = p @ blocks_text bs"
    and "\<not> includes_str p (js ''###'')"
    and "list_all block_ok bs"
  shows "existingSections readmeContent = map block_section bs
    \<and> (\<exists>appended.
        readmeSections = map block_section bs @ appended
        \<and> updateReadme projectDir readmePath fs =
            Inr (fs(readmePath \<mapsto> File
              (before @ placeholder @ [0x0A] @ tl (concat (map ((#) 0x0A) folderLinks)) @
               [0x0A] @ tl (concat (map ((#) 0x0A) (map block_section bs @ appended)))))))"
proof -
  have e: "existingSections readmeContent = map block_section bs"
    unfolding assms(5) using assms(6,7) by (rule existingSections_prefix_blocks)
  from assms(4) obtain dirents where
    "forEach (visit fs projectDir) dirents
      (existingLinks readmeContent, existingSections readmeContent) = Inr (folderLinks, readmeSections)"
    by (auto simp: collect_def split: sum.splits)
  from forEach_visit_sections [OF this] e obtain appended
    where a: "readmeSections = map block_section bs @ appended"
    by auto
  have "updateReadme projectDir readmePath fs =
      Inr (fs(readmePath \<mapsto> File (updatedContent readmeContent folderLinks readmeSections)))"
    using assms(1,4) by (rule updateReadme_write)
  also have "updatedContent readmeContent folderLinks readmeSections =
      before @ placeholder @ [0x0A] @ tl (concat (map ((#) 0x0A) folderLinks)) @
      [0x0A] @ tl (concat (map ((#) 0x0A) (map block_section bs @ appended)))"
    unfolding assms(2) a using assms(3) by (rule updatedContent_first)
  finally show ?thesis
    using e a by blast
qed

theorem sections_anywhere_are_extracted_witness:
  "js ''# Notes\<newline>###   Table of Contents  \<newline>---\<newline>\<newline>- item\<newline><!-- FOLDER LINKS -->\<newline>\<newline>### a\<newline>---\<newline>  Hello  '' =
     js ''# Notes\<newline>###   Table of Contents  \<newline>---\<newline>\<newline>- item\<newline>'' @ placeholder @
     js ''\<newline>\<newline>### a\<newline>---\<newline>  Hello  ''
   \<and> \<not> includes_str
       (js ''# Notes\<newline>###   Table of Contents  \<newline>---\<newline>\<newline>- item\<newline>'' @ butlast placeholder)
       placeholder
   \<and> js ''# Notes\<newline>###   Table of Contents  \<newline>---\<newline>\<newline>- item\<newline><!-- FOLDER LINKS -->\<newline>\<newline>### a\<newline>---\<newline>  Hello  '' =
     js ''# Notes\<newline>'' @
     blocks_text
       [Block (js ''   '') (js ''Table of Contents'') (js ''  '') (js ''\<newline>'')
          (js ''- item\<newline><!-- FOLDER LINKS -->'') (js ''\<newline>''),
        Block (js '' '') (js ''a'') [] (js ''  '') (js ''Hello'') (js ''  '')]
   \<and> \<not> includes_str (js ''# Notes\<newline>'') (js ''###'')
   \<and> block_ok (Block (js ''   '') (js ''Table of Contents'') (js ''  '') (js ''\<newline>'')
          (js ''- item\<newline><!-- FOLDER LINKS -->'') (js ''\<newline>''))
   \<and> block_ok (Block (js '' '') (js ''a'') [] (js ''  '') (js ''Hello'') (js ''  ''))
   \<and> existingSections
       (js ''# Notes\<newline>###   Table of Contents  \<newline>---\<newline>\<newline>- item\<newline><!-- FOLDER LINKS -->\<newline>\<newline>### a\<newline>---\<newline>  Hello  '') =
     [js ''### Table of Contents\<newline>---\<newline>- item\<newline><!-- FOLDER LINKS -->'',
      js ''### a\<newline>---\<newline>Hello'']
   \<and> updateReadme repo (readmeFilePath repo)
       (tree (js ''# Notes\<newline>###   Table of Contents  \<newline>---\<newline>\<newline>- item\<newline><!-- FOLDER LINKS -->\<newline>\<newline>### a\<newline>---\<newline>  Hello  '') []) =
     Inr ((tree (js ''# Notes\<newline>###   Table of Contents  \<newline>---\<newline>\<newline>- item\<newline><!-- FOLDER LINKS -->\<newline>\<newline>### a\<newline>---\<newline>  Hello  '') [])
       (readmeFilePath repo \<mapsto> File
         (js ''# Notes\<newline>###   Table of Contents  \<newline>---\<newline>\<newline>- item\<newline><!-- FOLDER LINKS -->\<newline>\<newline>### Table of Contents\<newline>---\<newline>- item\<newline><!-- FOLDER LINKS -->\<newline>### a\<newline>---\<newline>Hello'')))"
proof -
  let ?t = "js ''# Notes\<newline>###   Table of Contents  \<newline>---\<newline>\<newline>- item\<newline><!-- FOLDER LINKS -->\<newline>\<newline>### a\<newline>---\<newline>  Hello  ''"
  let ?before = "js ''# Notes\<newline>###   Table of Contents  \<newline>---\<newline>\<newline>- item\<newline>''"
  let ?after = "js ''\<newline>\<newline>### a\<newline>---\<newline>  Hello  ''"
  let ?B1 = "Block (js ''   '') (js ''Table of Contents'') (js ''  '') (js ''\<newline>'')
          (js ''- item\<newline><!-- FOLDER LINKS -->'') (js ''\<newline>'')"
  let ?B2 = "Block (js '' '') (js ''a'') [] (js ''  '') (js ''Hello'') (js ''  '')"
  have 2: "?t = ?before @ placeholder @ ?after"
    by (simp add: placeholder_def js_def)
  have 3: "\<not> includes_str (?before @ butlast placeholder) placeholder"
    by (simp add: placeholder_def js_def)
  have 5: "?t = js ''# Notes\<newline>'' @ blocks_text [?B1, ?B2]"
    by (simp add: js_def)
  have 6: "\<not> includes_str (js ''# Notes\<newline>'') (js ''###'')"
    by (simp add: js_def)
  have b1: "block_ok ?B1"
    by (simp add: blank_def js_def isSpace_def)
  have b2: "block_ok ?B2"
    by (simp add: blank_def js_def isSpace_def)
  from b1 b2 have 7: "list_all block_ok [?B1, ?B2]"
    by simp
  have l: "existingLinks ?t = []"
    by (rule existingLinks_none) (simp add: js_def)
  have 4: "collect (tree ?t []) repo ?t = Inr ([], existingSections ?t)"
    by (simp add: collect_tree_Nil l)
  from sections_anywhere_are_extracted [OF tree_readme 2 3 4 5 6 7] obtain appended
    where e: "existingSections ?t = map block_section [?B1, ?B2]"
      and a: "existingSections ?t = map block_section [?B1, ?B2] @ appended"
      and u: "updateReadme repo (readmeFilePath repo) (tree ?t []) =
            Inr ((tree ?t [])(readmeFilePath repo \<mapsto> File
              (?before @ placeholder @ [0x0A] @ tl (concat (map ((#) 0x0A) [])) @
               [0x0A] @ tl (concat (map ((#) 0x0A) (map block_section [?B1, ?B2] @ appended))))))"
    by blast
  from e a have "appended = []"
    by simp
  with u have "updateReadme repo (readmeFilePath repo) (tree ?t []) =
     Inr ((tree ?t [])
       (readmeFilePath repo \<mapsto> File
         (js ''# Notes\<newline>###   Table of Contents  \<newline>---\<newline>\<newline>- item\<newline><!-- FOLDER LINKS -->\<newline>\<newline>### Table of Contents\<newline>---\<newline>- item\<newline><!-- FOLDER LINKS -->\<newline>### a\<newline>---\<newline>Hello'')))"
    by (simp add: placeholder_def js_def)
  moreover from e have "existingSections ?t =
     [js ''### Table of Contents\<newline>---\<newline>- item\<newline><!-- FOLDER LINKS -->'',
      js ''### a\<newline>---\<newline>Hello'']"
    by (simp add: js_def)
  ultimately show ?thesis
    using 2 3 5 6 b1 b2 by blast
qed

section \<open>The written text\<close>



section \<open>A second run on a README that holds its sections\<close>








end
